theory Spec2Isabelle
  imports Complex_Main "HOL-Library.List_Lexorder" "HOL-Library.Char_ord"
begin

section \<open>Zero-shot scoring and metric aggregation of \<open>clip_finetune.ipynb\<close>\<close>

text \<open>
  The notebook computes with numpy arrays of floats. Here a float is a real number, a
  1-D array a list of reals and a 2-D array a list of rows. Rounding, overflow and the
  values inf and nan are therefore not represented: where the Python would produce
  nan or inf (a division by a zero norm, the mean of an empty array) the model returns
  the failure \<open>NonFinite\<close>. Exceptions raised by the libraries are failures as well.
  Rounding is represented in one place, \<open>softmax_fl\<close>, for the property of softmax
  that does not survive it.
\<close>

datatype failure = ValueError | IndexError | NonFinite

type_synonym vec = "real list"
type_synonym matrix = "real list list"

subsection \<open>numpy primitives\<close>

text \<open>\<^verbatim>\<open>np.max(x)\<close>: the largest element; raises ValueError on an empty array.\<close>

definition np_max :: "vec \<Rightarrow> failure + real" where
  "np_max x = (case x of [] \<Rightarrow> Inl ValueError | a # as \<Rightarrow> Inr (fold max as a))"

text \<open>
  \<^verbatim>\<open>np.argmax(x)\<close>: one scan from the left that moves to a new index only on a
  strictly larger value; raises ValueError on an empty array.
\<close>

fun argmax_scan :: "vec \<Rightarrow> nat \<Rightarrow> real \<Rightarrow> nat \<Rightarrow> nat" where
  "argmax_scan [] i mv mi = mi"
| "argmax_scan (x # xs) i mv mi =
     (if mv < x then argmax_scan xs (Suc i) x i else argmax_scan xs (Suc i) mv mi)"

definition np_argmax :: "vec \<Rightarrow> failure + nat" where
  "np_argmax x = (case x of [] \<Rightarrow> Inl ValueError | a # as \<Rightarrow> Inr (argmax_scan as 1 a 0))"

subsection \<open>softmax\<close>

text \<open>
  \<^verbatim>\<open>
  def softmax(x):
      e_x = np.exp(x - np.max(x))
      return e_x / e_x.sum()
  \<close>
  \<open>np.max\<close> and \<open>sum\<close> are called without an axis, so on a 2-D array both range over
  all entries of the array. \<open>softmax\<close> is the function on a 1-D array, \<open>softmax_2d\<close>
  the same body on a 2-D array.
\<close>

definition softmax :: "vec \<Rightarrow> failure + vec" where
  "softmax x =
     (case np_max x of
        Inl e \<Rightarrow> Inl e
      | Inr m \<Rightarrow>
          let e_x = map (\<lambda>v. exp (v - m)) x
          in Inr (map (\<lambda>e. e / sum_list e_x) e_x))"

definition softmax_2d :: "matrix \<Rightarrow> failure + matrix" where
  "softmax_2d x =
     (case np_max (concat x) of
        Inl e \<Rightarrow> Inl e
      | Inr m \<Rightarrow>
          let e_x = map (map (\<lambda>v. exp (v - m))) x
          in Inr (map (map (\<lambda>e. e / sum_list (concat e_x))) e_x))"

subsection \<open>softmax in floating point\<close>

text \<open>
  \<open>softmax\<close> above computes over the reals. The arrays of the notebook hold floats, and
  each operation of the body rounds its result: \<open>softmax_fl rnd\<close> is the same body with
  the rounding \<open>rnd\<close> of the float format applied after the subtraction, the
  exponential (taken as the rounded exact exponential), each addition of the sum (from
  the left) and the division; the maximum is exact. With no rounding it is \<open>softmax\<close>.
  \<open>round_double\<close> rounds to the nearest number with a significand of 53 bits, as
  IEEE double precision does within its exponent range (overflow, underflow and the
  tie rule are not represented).
\<close>

definition round_double :: "real \<Rightarrow> real" where
  "round_double x =
     (if x = 0 then 0
      else let u = 2 powr (of_int (\<lfloor>log 2 \<bar>x\<bar>\<rfloor> - 52))
           in of_int (round (x / u)) * u)"

definition fl_sum :: "(real \<Rightarrow> real) \<Rightarrow> vec \<Rightarrow> real" where
  "fl_sum rnd xs = (case xs of [] \<Rightarrow> 0 | a # as \<Rightarrow> fold (\<lambda>b acc. rnd (acc + b)) as a)"

definition softmax_fl :: "(real \<Rightarrow> real) \<Rightarrow> vec \<Rightarrow> failure + vec" where
  "softmax_fl rnd x =
     (case np_max x of
        Inl e \<Rightarrow> Inl e
      | Inr m \<Rightarrow>
          let e_x = map (\<lambda>v. rnd (exp (rnd (v - m)))) x
          in Inr (map (\<lambda>e. rnd (e / fl_sum rnd e_x)) e_x))"

subsection \<open>Other library primitives\<close>

text \<open>A Python loop that raises at the first element whose step raises.\<close>

fun traverse :: "('a \<Rightarrow> failure + 'b) \<Rightarrow> 'a list \<Rightarrow> failure + 'b list" where
  "traverse f [] = Inr []"
| "traverse f (x # xs) =
     (case f x of
        Inl e \<Rightarrow> Inl e
      | Inr y \<Rightarrow> (case traverse f xs of Inl e \<Rightarrow> Inl e | Inr ys \<Rightarrow> Inr (y # ys)))"

text \<open>\<^verbatim>\<open>xs[i]\<close> on a Python list with an index that is not negative.\<close>

definition list_get :: "'a list \<Rightarrow> nat \<Rightarrow> failure + 'a" where
  "list_get xs i = (if i < length xs then Inr (xs ! i) else Inl IndexError)"

text \<open>\<^verbatim>\<open>self.dataset[idx]\<close>: a negative index counts from the end of the dataset.\<close>

definition dataset_get :: "'a list \<Rightarrow> int \<Rightarrow> failure + 'a" where
  "dataset_get xs idx =
     (if 0 \<le> idx \<and> idx < int (length xs) then Inr (xs ! nat idx)
      else if idx < 0 \<and> 0 \<le> int (length xs) + idx then Inr (xs ! nat (int (length xs) + idx))
      else Inl IndexError)"

definition ncols :: "matrix \<Rightarrow> nat" where
  "ncols M = (case M of [] \<Rightarrow> 0 | r # _ \<Rightarrow> length r)"

text \<open>An array has rows of one length; a ragged list of rows is no array.\<close>

definition rectangular :: "matrix \<Rightarrow> bool" where
  "rectangular M = list_all (\<lambda>r. length r = ncols M) M"

definition dot :: "vec \<Rightarrow> vec \<Rightarrow> real" where
  "dot u v = (\<Sum>(a, b)\<leftarrow>zip u v. a * b)"

text \<open>
  \<^verbatim>\<open>np.dot(A, B.T)\<close> for \<open>A\<close> of shape (n, D) and \<open>B\<close> of shape (L, D'): entry
  (i, k) is the dot product of row i of \<open>A\<close> with row k of \<open>B\<close>; raises ValueError
  unless D = D'.
\<close>

definition np_dot_T :: "matrix \<Rightarrow> matrix \<Rightarrow> failure + matrix" where
  "np_dot_T A B =
     (if list_all (\<lambda>a. list_all (\<lambda>b. length a = length b) B) A
      then Inr (map (\<lambda>a. map (\<lambda>b. dot a b) B) A)
      else Inl ValueError)"

text \<open>\<^verbatim>\<open>np.linalg.norm(M, axis=0)\<close>: one Euclidean norm per column, taken down the rows.\<close>

definition norm_axis0 :: "matrix \<Rightarrow> vec" where
  "norm_axis0 M = map (\<lambda>j. sqrt (\<Sum>r\<leftarrow>M. (r ! j)\<^sup>2)) [0..<ncols M]"

text \<open>\<^verbatim>\<open>M / v\<close> for \<open>M\<close> of shape (L, D) and \<open>v\<close> of shape (D,): \<open>v\<close> is broadcast over the rows.\<close>

definition divide_rows :: "matrix \<Rightarrow> vec \<Rightarrow> matrix" where
  "divide_rows M v = map (\<lambda>r. map (\<lambda>(a, b). a / b) (zip r v)) M"

subsection \<open>The classifier\<close>

text \<open>
  A dataset record has the two columns \<open>image_column\<close> and \<open>text_column\<close>. The
  pretrained model, together with the tokenizer and image preprocessor of
  \<open>self.processor\<close>, is a parameter of every operation: \<open>get_text_features\<close> maps a
  label description to its embedding, \<open>get_image_features\<close> an image to its
  embedding, and a batch is encoded row by row, in order. Labels are class-name
  strings, ordered as Python orders strings.
\<close>

record 'img sample =
  sample_image :: 'img
  sample_label :: string

record 'img classifier =
  dataset :: "'img sample list"
  labels :: "string list"
  label_embeddings :: matrix

definition clip_label :: "string \<Rightarrow> string" where
  "clip_label l = ''a photo of a '' @ l"

text \<open>
  \<^verbatim>\<open>
  self.labels = sorted(list(set(self.dataset[text_column])))
  self.clip_labels = [f"a photo of a {label}" for label in self.labels]
  ...
  self.label_embeddings = self.model.get_text_features(**self.label_tokens)
  self.label_embeddings = self.label_embeddings / np.linalg.norm(self.label_embeddings, axis=0)
  \<close>
  A column of norm 0 makes the division 0/0, which is nan.
\<close>

definition prepare_dataset ::
  "(string \<Rightarrow> vec) \<Rightarrow> 'img sample list \<Rightarrow> failure + 'img classifier" where
  "prepare_dataset get_text_features ds =
     (let lbls = sort (remdups (map sample_label ds));
          clip_labels = map clip_label lbls;
          raw = map get_text_features clip_labels
      in if \<not> rectangular raw then Inl ValueError
         else if 0 \<in> set (norm_axis0 raw) then Inl NonFinite
         else Inr \<lparr>dataset = ds, labels = lbls,
                   label_embeddings = divide_rows raw (norm_axis0 raw)\<rparr>)"

text \<open>
  Modelled from the spec: the per-row unit normalisation that the spec names as the
  likely intent, for comparison with what \<open>prepare_dataset\<close> computes.
\<close>

definition l2_normalize_rows :: "matrix \<Rightarrow> matrix" where
  "l2_normalize_rows M = map (\<lambda>r. map (\<lambda>a. a / sqrt (\<Sum>b\<leftarrow>r. b\<^sup>2)) r) M"

subsection \<open>inference_on_samples\<close>

record prediction =
  index :: int
  true_label :: string
  predicted_label :: string
  confidence :: real
  all_scores :: "(string \<times> real) list"

text \<open>
  The body of the loop over \<open>sample_indices\<close>:
  \<^verbatim>\<open>
  scores = np.dot(image_embeddings, self.label_embeddings.T)[0]
  pred_idx = np.argmax(scores)
  confidence_scores = softmax(scores)
  \<close>
  \<open>all_scores\<close> is the dictionary \<^verbatim>\<open>dict(zip(self.labels, confidence_scores))\<close>, kept
  as the list of its items in insertion order.
\<close>

definition infer_sample ::
  "('img \<Rightarrow> vec) \<Rightarrow> 'img classifier \<Rightarrow> int \<Rightarrow> failure + prediction" where
  "infer_sample get_image_features st idx =
     (case dataset_get (dataset st) idx of
        Inl e \<Rightarrow> Inl e
      | Inr smp \<Rightarrow>
     (case np_dot_T [get_image_features (sample_image smp)] (label_embeddings st) of
        Inl e \<Rightarrow> Inl e
      | Inr sc \<Rightarrow>
     (case np_argmax (sc ! 0) of
        Inl e \<Rightarrow> Inl e
      | Inr pred_idx \<Rightarrow>
     (case softmax (sc ! 0) of
        Inl e \<Rightarrow> Inl e
      | Inr confidence_scores \<Rightarrow>
     (case list_get (labels st) pred_idx of
        Inl e \<Rightarrow> Inl e
      | Inr name \<Rightarrow>
          Inr \<lparr>index = idx, true_label = sample_label smp, predicted_label = name,
               confidence = confidence_scores ! pred_idx,
               all_scores = zip (labels st) confidence_scores\<rparr>)))))"

definition inference_on_samples ::
  "('img \<Rightarrow> vec) \<Rightarrow> 'img classifier \<Rightarrow> int list \<Rightarrow> failure + prediction list" where
  "inference_on_samples get_image_features st sample_indices =
     traverse (infer_sample get_image_features st) sample_indices"

subsection \<open>Metrics of scikit-learn\<close>

text \<open>
  \<open>precision_recall_fscore_support\<close> and \<open>classification_report\<close> are called without
  \<open>labels\<close>, so the classes are the sorted distinct values of \<open>y_true\<close> and \<open>y_pred\<close>
  together, and with the default \<open>zero_division\<close>, under which a quotient with
  denominator 0 is 0.
\<close>

definition unique_labels :: "string list \<Rightarrow> string list \<Rightarrow> string list" where
  "unique_labels y_true y_pred = sort (remdups (y_true @ y_pred))"

definition prf_divide :: "real \<Rightarrow> real \<Rightarrow> real" where
  "prf_divide n d = (if d = 0 then 0 else n / d)"

definition tp_sum :: "string list \<Rightarrow> string list \<Rightarrow> string \<Rightarrow> nat" where
  "tp_sum y_true y_pred c = length (filter (\<lambda>(t, p). t = c \<and> p = c) (zip y_true y_pred))"

definition pred_sum :: "string list \<Rightarrow> string \<Rightarrow> nat" where
  "pred_sum y_pred c = length (filter (\<lambda>p. p = c) y_pred)"

definition true_sum :: "string list \<Rightarrow> string \<Rightarrow> nat" where
  "true_sum y_true c = length (filter (\<lambda>t. t = c) y_true)"

record report_row =
  row_precision :: real
  row_recall :: real
  row_f1 :: real
  row_support :: nat

text \<open>
  The scores of one class: precision tp / predicted, recall tp / true, and the F1 score
  2 tp / (true + predicted), which is 2 p r / (p + r) wherever that is defined.
\<close>

definition class_scores :: "string list \<Rightarrow> string list \<Rightarrow> string \<Rightarrow> report_row" where
  "class_scores y_true y_pred c =
     \<lparr>row_precision = prf_divide (real (tp_sum y_true y_pred c)) (real (pred_sum y_pred c)),
      row_recall = prf_divide (real (tp_sum y_true y_pred c)) (real (true_sum y_true c)),
      row_f1 = prf_divide (2 * real (tp_sum y_true y_pred c))
                 (real (true_sum y_true c) + real (pred_sum y_pred c)),
      row_support = true_sum y_true c\<rparr>"

text \<open>\<^verbatim>\<open>np.average(a, weights=w)\<close>, with the result 0 of scikit-learn when all weights are 0.\<close>

definition weighted_average :: "real list \<Rightarrow> real list \<Rightarrow> real" where
  "weighted_average a w = prf_divide (\<Sum>(x, y)\<leftarrow>zip a w. x * y) (sum_list w)"

text \<open>
  \<^verbatim>\<open>precision_recall_fscore_support(y_true, y_pred, average='weighted')\<close>: the
  per-class scores averaged with the supports as weights. (The fourth component of the
  Python result is \<open>None\<close>.)
\<close>

definition precision_recall_fscore_support :: "string list \<Rightarrow> string list \<Rightarrow> real \<times> real \<times> real" where
  "precision_recall_fscore_support y_true y_pred =
     (let rs = map (class_scores y_true y_pred) (unique_labels y_true y_pred);
          weights = map (\<lambda>r. real (row_support r)) rs
      in (weighted_average (map row_precision rs) weights,
          weighted_average (map row_recall rs) weights,
          weighted_average (map row_f1 rs) weights))"

text \<open>
  \<^verbatim>\<open>classification_report(y_true, y_pred, target_names=..., output_dict=True)\<close>: the
  i-th target name is paired with the scores of the i-th class; raises ValueError when
  the number of target names is not the number of classes. The dictionary is kept as
  the list of its per-class items, in order, and its \<open>weighted avg\<close> entry; the entries
  \<open>accuracy\<close> and \<open>macro avg\<close> are not modelled.
\<close>

record report =
  report_rows :: "(string \<times> report_row) list"
  weighted_avg :: report_row

definition classification_report ::
  "string list \<Rightarrow> string list \<Rightarrow> string list \<Rightarrow> failure + report" where
  "classification_report y_true y_pred target_names =
     (let lbls = unique_labels y_true y_pred;
          rs = map (class_scores y_true y_pred) lbls
      in if length lbls \<noteq> length target_names then Inl ValueError
         else (case precision_recall_fscore_support y_true y_pred of (p, r, f) \<Rightarrow>
           Inr \<lparr>report_rows = zip target_names rs,
                weighted_avg = \<lparr>row_precision = p, row_recall = r, row_f1 = f,
                                 row_support = sum_list (map row_support rs)\<rparr>\<rparr>))"

text \<open>
  \<^verbatim>\<open>np.mean(np.array(all_predictions) == np.array(all_labels))\<close>: the comparison is
  elementwise on arrays of one length, and the mean of an empty array is nan. On
  arrays of two lengths the model fails with ValueError, as numpy 1.25 and later do
  unless one array has length 1 and is broadcast; \<open>evaluate\<close> extends both lists by
  one entry per sample, so it passes two lengths in no run.
\<close>

definition accuracy_of :: "string list \<Rightarrow> string list \<Rightarrow> failure + real" where
  "accuracy_of all_predictions all_labels =
     (if length all_predictions \<noteq> length all_labels then Inl ValueError
      else if all_labels = [] then Inl NonFinite
      else Inr (real (length (filter (\<lambda>(p, t). p = t) (zip all_predictions all_labels)))
                / real (length all_labels)))"

subsection \<open>evaluate\<close>

record metrics =
  accuracy :: real
  precision :: real
  recall :: real
  f1_score :: real

record eval_result =
  result_metrics :: metrics
  detailed_report :: report
  predictions :: "string list"
  true_labels :: "string list"
  raw_scores :: matrix

text \<open>
  One batch:
  \<^verbatim>\<open>
  scores = np.dot(image_embeddings, self.label_embeddings.T)
  predictions = np.argmax(scores, axis=1)
  \<close>
  returning what the loop appends to \<open>all_predictions\<close>, \<open>all_labels\<close> and \<open>all_scores\<close>
  (written \<open>all_scores'\<close> below, apart from the field of a prediction).
\<close>

definition eval_batch ::
  "('img \<Rightarrow> vec) \<Rightarrow> 'img classifier \<Rightarrow> 'img sample list
     \<Rightarrow> failure + (string list \<times> string list \<times> matrix)" where
  "eval_batch get_image_features st batch =
     (case np_dot_T (map (\<lambda>s. get_image_features (sample_image s)) batch) (label_embeddings st) of
        Inl e \<Rightarrow> Inl e
      | Inr scores \<Rightarrow>
     (case traverse np_argmax scores of
        Inl e \<Rightarrow> Inl e
      | Inr idxs \<Rightarrow>
     (case traverse (list_get (labels st)) idxs of
        Inl e \<Rightarrow> Inl e
      | Inr names \<Rightarrow> Inr (names, map sample_label batch, scores))))"

text \<open>
  \<^verbatim>\<open>for i in range(0, len(self.dataset), batch_size)\<close> with the three accumulators.
  A step that is not positive leaves the loop at once (\<open>range\<close> is then empty; the
  step 0 is refused by \<open>evaluate\<close> below).
\<close>

function evaluate_loop ::
  "('img \<Rightarrow> vec) \<Rightarrow> 'img classifier \<Rightarrow> nat \<Rightarrow> nat \<Rightarrow> string list \<Rightarrow> string list \<Rightarrow> matrix
     \<Rightarrow> failure + (string list \<times> string list \<times> matrix)" where
  "evaluate_loop get_image_features st bs i all_predictions all_labels all_scores' =
     (if 0 < bs \<and> i < length (dataset st) then
        (case eval_batch get_image_features st
                (take (min (i + bs) (length (dataset st)) - i) (drop i (dataset st))) of
           Inl e \<Rightarrow> Inl e
         | Inr (ps, ls, ss) \<Rightarrow>
             evaluate_loop get_image_features st bs (i + bs)
               (all_predictions @ ps) (all_labels @ ls) (all_scores' @ ss))
      else Inr (all_predictions, all_labels, all_scores'))"
  by pat_completeness auto
termination
  by (relation "measure (\<lambda>(g, st, bs, i, ap, al, as). length (dataset st) - i)") auto

declare evaluate_loop.simps [simp del]

text \<open>
  \<^verbatim>\<open>range(0, n, 0)\<close> raises ValueError. The two plots written by \<open>evaluate\<close> are side
  effects on the file system and are left out; they read the accumulated labels and
  the metrics and change neither.
\<close>

definition evaluate ::
  "('img \<Rightarrow> vec) \<Rightarrow> int \<Rightarrow> 'img classifier \<Rightarrow> failure + eval_result" where
  "evaluate get_image_features batch_size st =
     (if batch_size = 0 then Inl ValueError
      else
     (case evaluate_loop get_image_features st (nat batch_size) 0 [] [] [] of
        Inl e \<Rightarrow> Inl e
      | Inr (all_predictions, all_labels, all_scores') \<Rightarrow>
     (case precision_recall_fscore_support all_labels all_predictions of (p, r, f1) \<Rightarrow>
     (case classification_report all_labels all_predictions (labels st) of
        Inl e \<Rightarrow> Inl e
      | Inr rep \<Rightarrow>
     (case accuracy_of all_predictions all_labels of
        Inl e \<Rightarrow> Inl e
      | Inr acc \<Rightarrow>
          Inr \<lparr>result_metrics = \<lparr>accuracy = acc, precision = p, recall = r, f1_score = f1\<rparr>,
               detailed_report = rep,
               predictions = all_predictions,
               true_labels = all_labels,
               raw_scores = all_scores'\<rparr>)))))"

subsection \<open>Notions used in the statements\<close>

text \<open>
  The scores of one sample, the index \<open>np.argmax\<close> returns on a vector that is not
  empty, and the label read from the vocabulary at that index.
\<close>

definition score_row :: "('img \<Rightarrow> vec) \<Rightarrow> 'img classifier \<Rightarrow> 'img sample \<Rightarrow> vec" where
  "score_row get_image_features st s =
     map (\<lambda>b. dot (get_image_features (sample_image s)) b) (label_embeddings st)"

definition argmax_index :: "vec \<Rightarrow> nat" where
  "argmax_index x = (case x of [] \<Rightarrow> 0 | a # as \<Rightarrow> argmax_scan as 1 a 0)"

definition predicted :: "('img \<Rightarrow> vec) \<Rightarrow> 'img classifier \<Rightarrow> 'img sample \<Rightarrow> string" where
  "predicted get_image_features st s =
     labels st ! argmax_index (score_row get_image_features st s)"

text \<open>
  A classifier state on which scoring cannot fail: a vocabulary that is not empty, one
  embedding row per label, and label and image embeddings of one dimension \<open>D\<close>.
\<close>

definition well_formed :: "nat \<Rightarrow> ('img \<Rightarrow> vec) \<Rightarrow> 'img classifier \<Rightarrow> bool" where
  "well_formed D get_image_features st \<longleftrightarrow>
     labels st \<noteq> [] \<and>
     length (label_embeddings st) = length (labels st) \<and>
     list_all (\<lambda>b. length b = D) (label_embeddings st) \<and>
     list_all (\<lambda>s. length (get_image_features (sample_image s)) = D) (dataset st)"

subsection \<open>The data of the specification's scenarios\<close>

text \<open>
  A text encoder that embeds the two label descriptions as the unit vectors, a dataset
  whose images are their own embeddings, and the classifier state they give.
\<close>

abbreviation cat_dog_encoder :: "string \<Rightarrow> vec" where
  "cat_dog_encoder \<equiv> (\<lambda>t. if t = ''a photo of a cat'' then [1, 0] else [0, 1])"

abbreviation cat_dog_dataset :: "vec sample list" where
  "cat_dog_dataset \<equiv>
     [\<lparr>sample_image = [9/10, 1/10], sample_label = ''cat''\<rparr>,
      \<lparr>sample_image = [1/10, 9/10], sample_label = ''dog''\<rparr>]"

abbreviation cat_dog_state :: "vec classifier" where
  "cat_dog_state \<equiv>
     \<lparr>dataset = cat_dog_dataset, labels = [''cat'', ''dog''],
      label_embeddings = [[1, 0], [0, 1]]\<rparr>"

text \<open>A text encoder whose two embeddings are neither unit vectors nor orthogonal.\<close>

abbreviation three_four_encoder :: "string \<Rightarrow> vec" where
  "three_four_encoder \<equiv> (\<lambda>t. if t = ''a photo of a cat'' then [3, 0] else [4, 1])"

text \<open>A dataset on which the label dog is never predicted.\<close>

abbreviation one_sided_dataset :: "vec sample list" where
  "one_sided_dataset \<equiv>
     [\<lparr>sample_image = [9/10, 1/10], sample_label = ''cat''\<rparr>,
      \<lparr>sample_image = [4/5, 1/5], sample_label = ''dog''\<rparr>]"

abbreviation one_sided_state :: "vec classifier" where
  "one_sided_state \<equiv>
     \<lparr>dataset = one_sided_dataset, labels = [''cat'', ''dog''],
      label_embeddings = [[1, 0], [0, 1]]\<rparr>"

text \<open>A dataset whose first image scores 1 against both labels; its true label is dog.\<close>

abbreviation tie_dataset :: "vec sample list" where
  "tie_dataset \<equiv>
     [\<lparr>sample_image = [1, 1], sample_label = ''dog''\<rparr>,
      \<lparr>sample_image = [1/10, 9/10], sample_label = ''cat''\<rparr>]"

abbreviation tie_state :: "vec classifier" where
  "tie_state \<equiv>
     \<lparr>dataset = tie_dataset, labels = [''cat'', ''dog''],
      label_embeddings = [[1, 0], [0, 1]]\<rparr>"

section \<open>Properties\<close>

subsection \<open>The primitives\<close>

lemma fold_max_Max: "fold max xs (a::real) = Max (set (a # xs))"
proof (induction xs arbitrary: a)
  case Nil
  show ?case by simp
next
  case (Cons x xs)
  have "Max (set (max x a # xs)) = Max (set (a # x # xs))"
  proof (cases "xs = []")
    case True
    then show ?thesis by (simp add: max.commute)
  next
    case False
    then show ?thesis by (simp add: max.assoc max.left_commute max.commute)
  qed
  with Cons show ?case by simp
qed

lemma np_max_Max: "x \<noteq> [] \<Longrightarrow> np_max x = Inr (Max (set x))"
  by (cases x) (simp_all add: np_max_def fold_max_Max)

lemma argmax_scan_inv:
  assumes "length pre = i" "mi < i" "pre ! mi = mv"
    and "\<forall>j<i. pre ! j \<le> mv" and "\<forall>j<mi. pre ! j < mv"
  shows "argmax_scan xs i mv mi < i + length xs
    \<and> (\<forall>j < i + length xs. (pre @ xs) ! j \<le> (pre @ xs) ! argmax_scan xs i mv mi)
    \<and> (\<forall>j < argmax_scan xs i mv mi. (pre @ xs) ! j < (pre @ xs) ! argmax_scan xs i mv mi)"
  using assms
proof (induction xs arbitrary: pre i mv mi)
  case Nil
  then show ?case by simp
next
  case (Cons x xs)
  let ?pre = "pre @ [x]"
  have len: "length ?pre = Suc i" using Cons.prems(1) by simp
  have app: "pre @ x # xs = ?pre @ xs" by simp
  show ?case
  proof (cases "mv < x")
    case True
    have a: "i < Suc i" "?pre ! i = x" using Cons.prems(1) by (simp_all add: nth_append)
    have b: "\<forall>j<Suc i. ?pre ! j \<le> x"
      using Cons.prems(1,4) True by (auto simp: nth_append less_Suc_eq)
    have c: "\<forall>j<i. ?pre ! j < x"
      using Cons.prems(1,4) True by (auto simp: nth_append)
    from Cons.IH[OF len a b c] True show ?thesis
      unfolding app by simp
  next
    case False
    have a: "mi < Suc i" "?pre ! mi = mv" using Cons.prems(1,2,3) by (simp_all add: nth_append)
    have b: "\<forall>j<Suc i. ?pre ! j \<le> mv"
      using Cons.prems(1,4) False by (auto simp: nth_append less_Suc_eq)
    have c: "\<forall>j<mi. ?pre ! j < mv"
      using Cons.prems(1,2,5) by (auto simp: nth_append)
    from Cons.IH[OF len a b c] False show ?thesis
      unfolding app by simp
  qed
qed

lemma np_argmax_first_max:
  assumes "x \<noteq> []"
  shows "\<exists>k. np_argmax x = Inr k \<and> k < length x
    \<and> (\<forall>j<length x. x ! j \<le> x ! k) \<and> (\<forall>j<k. x ! j < x ! k)"
proof -
  from assms obtain a as where x: "x = a # as" by (cases x) auto
  have "argmax_scan as 1 a 0 < 1 + length as
    \<and> (\<forall>j < 1 + length as. ([a] @ as) ! j \<le> ([a] @ as) ! argmax_scan as 1 a 0)
    \<and> (\<forall>j < argmax_scan as 1 a 0. ([a] @ as) ! j < ([a] @ as) ! argmax_scan as 1 a 0)"
    by (rule argmax_scan_inv) simp_all
  then show ?thesis by (simp add: x np_argmax_def)
qed

lemma first_max_unique:
  fixes x :: vec
  assumes "k < length x" "\<forall>j<length x. x ! j \<le> x ! k" "\<forall>j<k. x ! j < x ! k"
    and "k' < length x" "\<forall>j<length x. x ! j \<le> x ! k'" "\<forall>j<k'. x ! j < x ! k'"
  shows "k = k'"
proof (rule ccontr)
  assume "k \<noteq> k'"
  then consider "k < k'" | "k' < k" by linarith
  then show False
  proof cases
    case 1
    with assms(6) have "x ! k < x ! k'" by simp
    moreover from assms(2,4) have "x ! k' \<le> x ! k" by simp
    ultimately show False by simp
  next
    case 2
    with assms(3) have "x ! k' < x ! k" by simp
    moreover from assms(5,1) have "x ! k \<le> x ! k'" by simp
    ultimately show False by simp
  qed
qed

lemma first_max_is_Max:
  fixes x :: vec
  assumes "k < length x" "\<forall>j<length x. x ! j \<le> x ! k"
  shows "x ! k = Max (set x)"
proof (rule antisym)
  show "x ! k \<le> Max (set x)" using assms(1) by simp
  show "Max (set x) \<le> x ! k"
    using assms by (subst Max_le_iff) (auto simp: in_set_conv_nth)
qed

lemma np_max_shift: "np_max (map (\<lambda>v. v + c) x) = map_sum id (\<lambda>m. m + c) (np_max x)"
proof (cases x)
  case Nil
  then show ?thesis by (simp add: np_max_def)
next
  case (Cons a as)
  have "fold max (map (\<lambda>v. v + c) as) (b + c) = fold max as b + c" for b
    by (induction as arbitrary: b) (simp_all add: max_add_distrib_left[symmetric])
  then show ?thesis by (simp add: Cons np_max_def)
qed

lemma softmax_expand:
  assumes "x \<noteq> []"
  shows "softmax x = Inr (map (\<lambda>v. exp (v - Max (set x)) / (\<Sum>u\<leftarrow>x. exp (u - Max (set x)))) x)"
  using assms by (simp add: softmax_def np_max_Max Let_def comp_def)

lemma exp_sum_pos:
  assumes "x \<noteq> []"
  shows "0 < (\<Sum>u\<leftarrow>x. exp (u - (m::real)))"
proof -
  from assms obtain a as where "x = a # as" by (cases x) auto
  moreover have "0 \<le> (\<Sum>u\<leftarrow>as. exp (u - m))" by (rule sum_list_nonneg) auto
  moreover have "0 < exp (a - m)" by simp
  ultimately show ?thesis by (simp add: add_pos_nonneg)
qed

lemma softmax_sum:
  assumes "x \<noteq> []"
  shows "\<exists>p. softmax x = Inr p \<and> length p = length x \<and> sum_list p = 1"
proof -
  let ?m = "Max (set x)"
  let ?S = "\<Sum>u\<leftarrow>x. exp (u - ?m)"
  have pos: "0 < ?S" using assms by (rule exp_sum_pos)
  have "(\<Sum>v\<leftarrow>x. exp (v - ?m) / ?S) = (\<Sum>v\<leftarrow>x. exp (v - ?m) * inverse ?S)"
    by (simp add: divide_inverse)
  also have "\<dots> = ?S * inverse ?S" by (simp add: sum_list_mult_const)
  also have "\<dots> = 1" using pos by simp
  finally show ?thesis using softmax_expand[OF assms] by (simp add: comp_def)
qed

lemma softmax_shift:
  "softmax (map (\<lambda>v. v + c) x) = softmax x"
proof (cases "np_max x")
  case (Inl e)
  then show ?thesis by (simp add: softmax_def np_max_shift)
next
  case (Inr m)
  then show ?thesis by (simp add: softmax_def np_max_shift Let_def comp_def)
qed

lemma np_argmax_index: "x \<noteq> [] \<Longrightarrow> np_argmax x = Inr (argmax_index x)"
  by (cases x) (simp_all add: np_argmax_def argmax_index_def)

lemma argmax_index_props:
  assumes "x \<noteq> []"
  shows "argmax_index x < length x"
    and "\<forall>j<length x. x ! j \<le> x ! argmax_index x"
    and "\<forall>j<argmax_index x. x ! j < x ! argmax_index x"
  using np_argmax_first_max[OF assms] np_argmax_index[OF assms] by auto

lemma traverse_all_Inr:
  assumes "\<forall>x\<in>set xs. f x = Inr (h x)"
  shows "traverse f xs = Inr (map h xs)"
  using assms by (induction xs) simp_all

lemma length_score_row [simp]: "length (score_row g st s) = length (label_embeddings st)"
  by (simp add: score_row_def)

lemma np_dot_T_wf:
  assumes "list_all (\<lambda>b. length b = D) B" "list_all (\<lambda>a. length a = D) A"
  shows "np_dot_T A B = Inr (map (\<lambda>a. map (\<lambda>b. dot a b) B) A)"
  using assms by (auto simp: np_dot_T_def list_all_iff)

lemma predicted_in_labels:
  assumes "well_formed D g st"
  shows "argmax_index (score_row g st s) < length (labels st)"
    and "predicted g st s \<in> set (labels st)"
proof -
  have ne: "score_row g st s \<noteq> []"
    using assms by (auto simp: well_formed_def score_row_def)
  from argmax_index_props(1)[OF ne] assms
  show "argmax_index (score_row g st s) < length (labels st)"
    by (simp add: well_formed_def)
  then show "predicted g st s \<in> set (labels st)"
    by (simp add: predicted_def)
qed

lemma eval_batch_wf:
  assumes wf: "well_formed D g st" and sub: "set batch \<subseteq> set (dataset st)"
  shows "eval_batch g st batch =
    Inr (map (predicted g st) batch, map sample_label batch, map (score_row g st) batch)"
proof -
  have A: "list_all (\<lambda>a. length a = D) (map (\<lambda>s. g (sample_image s)) batch)"
    using wf sub by (auto simp: well_formed_def list_all_iff)
  have B: "list_all (\<lambda>b. length b = D) (label_embeddings st)"
    using wf by (simp add: well_formed_def)
  have dot: "np_dot_T (map (\<lambda>s. g (sample_image s)) batch) (label_embeddings st)
      = Inr (map (score_row g st) batch)"
    using np_dot_T_wf[OF B A] by (simp add: score_row_def comp_def)
  have ne: "score_row g st s \<noteq> []" for s
    using wf by (auto simp: well_formed_def score_row_def)
  let ?idx = "map (\<lambda>s. argmax_index (score_row g st s)) batch"
  have am: "traverse np_argmax (map (score_row g st) batch) = Inr ?idx"
    using traverse_all_Inr[of "map (score_row g st) batch" np_argmax argmax_index]
    by (simp add: np_argmax_index ne comp_def)
  have lk: "traverse (list_get (labels st)) ?idx = Inr (map (predicted g st) batch)"
    using traverse_all_Inr[of ?idx "list_get (labels st)" "\<lambda>k. labels st ! k"]
    by (simp add: list_get_def predicted_in_labels(1)[OF wf] predicted_def comp_def)
  show ?thesis
    by (simp add: eval_batch_def dot am lk)
qed

lemma evaluate_loop_wf:
  assumes "well_formed D g st" and "0 < bs"
  shows "evaluate_loop g st bs i ap al as =
    Inr (ap @ map (predicted g st) (drop i (dataset st)),
         al @ map sample_label (drop i (dataset st)),
         as @ map (score_row g st) (drop i (dataset st)))"
  using assms
proof (induction g st bs i ap al as rule: evaluate_loop.induct)
  case (1 g st bs i ap al as)
  let ?ds = "dataset st"
  show ?case
  proof (cases "i < length ?ds")
    case False
    then show ?thesis using "1.prems" by (subst evaluate_loop.simps) simp
  next
    case True
    let ?batch = "take (min (i + bs) (length ?ds) - i) (drop i ?ds)"
    have tk: "?batch = take bs (drop i ?ds)"
      using True by (simp add: min_def)
    have sub: "set ?batch \<subseteq> set ?ds"
      by (meson set_take_subset set_drop_subset subset_trans)
    have eb: "eval_batch g st ?batch =
      Inr (map (predicted g st) ?batch, map sample_label ?batch, map (score_row g st) ?batch)"
      using eval_batch_wf[OF "1.prems"(1) sub] .
    have split: "drop i ?ds = ?batch @ drop (i + bs) ?ds"
    proof -
      have "drop (i + bs) ?ds = drop bs (drop i ?ds)" by (simp add: add.commute)
      then show ?thesis unfolding tk by (simp only: append_take_drop_id)
    qed
    have IH: "evaluate_loop g st bs (i + bs)
        (ap @ map (predicted g st) ?batch) (al @ map sample_label ?batch)
        (as @ map (score_row g st) ?batch) =
      Inr ((ap @ map (predicted g st) ?batch) @ map (predicted g st) (drop (i + bs) ?ds),
           (al @ map sample_label ?batch) @ map sample_label (drop (i + bs) ?ds),
           (as @ map (score_row g st) ?batch) @ map (score_row g st) (drop (i + bs) ?ds))"
      using "1.IH"[OF _ eb refl refl "1.prems"] True "1.prems"(2) by simp
    have "evaluate_loop g st bs i ap al as = evaluate_loop g st bs (i + bs)
        (ap @ map (predicted g st) ?batch) (al @ map sample_label ?batch)
        (as @ map (score_row g st) ?batch)"
      using True "1.prems"(2) eb by (subst evaluate_loop.simps) simp
    also note IH
    finally show ?thesis
      by (subst (1 2 3) split) simp
  qed
qed

lemma unique_labels_subset:
  assumes "set y_pred \<subseteq> set y_true"
  shows "unique_labels y_true y_pred = sort (remdups y_true)"
proof -
  have "sorted (sort (remdups (y_true @ y_pred)))" "distinct (sort (remdups (y_true @ y_pred)))"
    "sorted (sort (remdups y_true))" "distinct (sort (remdups y_true))"
    by simp_all
  moreover have "set (sort (remdups (y_true @ y_pred))) = set (sort (remdups y_true))"
    using assms by auto
  ultimately show ?thesis
    unfolding unique_labels_def by (metis sorted_distinct_set_unique)
qed

lemma divide_rows_length:
  assumes "list_all (\<lambda>r. length r = D) M" "length v = D"
  shows "list_all (\<lambda>r. length r = D) (divide_rows M v)"
  using assms by (auto simp: divide_rows_def list_all_iff)

lemma ncols_fixed:
  assumes "M \<noteq> []" "\<forall>r\<in>set M. length r = D"
  shows "ncols M = D"
  using assms by (cases M) (simp_all add: ncols_def)

lemma prepare_dataset_fields:
  assumes "prepare_dataset txt ds = Inr st"
  shows "dataset st = ds"
    and "labels st = sort (remdups (map sample_label ds))"
    and "label_embeddings st =
      divide_rows (map (\<lambda>l. txt (clip_label l)) (labels st))
        (norm_axis0 (map (\<lambda>l. txt (clip_label l)) (labels st)))"
    and "0 \<notin> set (norm_axis0 (map (\<lambda>l. txt (clip_label l)) (labels st)))"
    and "rectangular (map (\<lambda>l. txt (clip_label l)) (labels st))"
  using assms by (auto simp: prepare_dataset_def Let_def comp_def split: if_splits)

lemma prepare_dataset_wf:
  assumes prep: "prepare_dataset txt ds = Inr st" and ne: "ds \<noteq> []"
    and dt: "\<forall>t. length (txt t) = D"
    and dg: "\<forall>s\<in>set ds. length (g (sample_image s)) = D"
  shows "well_formed D g st"
proof -
  note f = prepare_dataset_fields[OF prep]
  let ?raw = "map (\<lambda>l. txt (clip_label l)) (labels st)"
  have lne: "labels st \<noteq> []"
  proof -
    have "set (labels st) = sample_label ` set ds" by (simp add: f(2))
    with ne show ?thesis by (cases ds) auto
  qed
  have rows: "list_all (\<lambda>r. length r = D) ?raw" using dt by (simp add: list_all_iff)
  have "ncols ?raw = D" using lne dt by (intro ncols_fixed) auto
  then have "length (norm_axis0 ?raw) = D" by (simp add: norm_axis0_def)
  from divide_rows_length[OF rows this]
  have "list_all (\<lambda>b. length b = D) (label_embeddings st)" by (simp add: f(3))
  moreover have "length (label_embeddings st) = length (labels st)"
    by (subst f(3)) (simp add: divide_rows_def)
  ultimately show ?thesis
    using lne dg by (simp add: well_formed_def list_all_iff f(1))
qed

lemma evaluate_wf:
  assumes wf: "well_formed D g st" and bs: "0 < batch_size"
    and ne: "dataset st \<noteq> []"
    and lb: "labels st = sort (remdups (map sample_label (dataset st)))"
  shows "evaluate g batch_size st =
    Inr \<lparr>result_metrics =
           \<lparr>accuracy = real (length (filter (\<lambda>(p, t). p = t)
                 (zip (map (predicted g st) (dataset st)) (map sample_label (dataset st)))))
                 / real (length (dataset st)),
            precision = fst (precision_recall_fscore_support (map sample_label (dataset st))
                 (map (predicted g st) (dataset st))),
            recall = fst (snd (precision_recall_fscore_support (map sample_label (dataset st))
                 (map (predicted g st) (dataset st)))),
            f1_score = snd (snd (precision_recall_fscore_support (map sample_label (dataset st))
                 (map (predicted g st) (dataset st))))\<rparr>,
         detailed_report =
           \<lparr>report_rows = zip (labels st)
              (map (class_scores (map sample_label (dataset st)) (map (predicted g st) (dataset st)))
                 (labels st)),
            weighted_avg =
              \<lparr>row_precision = fst (precision_recall_fscore_support (map sample_label (dataset st))
                 (map (predicted g st) (dataset st))),
               row_recall = fst (snd (precision_recall_fscore_support (map sample_label (dataset st))
                 (map (predicted g st) (dataset st)))),
               row_f1 = snd (snd (precision_recall_fscore_support (map sample_label (dataset st))
                 (map (predicted g st) (dataset st)))),
               row_support = sum_list (map row_support
                 (map (class_scores (map sample_label (dataset st))
                    (map (predicted g st) (dataset st))) (labels st)))\<rparr>\<rparr>,
         predictions = map (predicted g st) (dataset st),
         true_labels = map sample_label (dataset st),
         raw_scores = map (score_row g st) (dataset st)\<rparr>"
proof -
  let ?yt = "map sample_label (dataset st)" and ?yp = "map (predicted g st) (dataset st)"
  have nb: "0 < nat batch_size" using bs by simp
  have loop: "evaluate_loop g st (nat batch_size) 0 [] [] [] =
    Inr (?yp, ?yt, map (score_row g st) (dataset st))"
    using evaluate_loop_wf[OF wf nb, of 0 "[]" "[]" "[]"] by simp
  have "set ?yp \<subseteq> set (labels st)"
    using predicted_in_labels(2)[OF wf] by auto
  then have "set ?yp \<subseteq> set ?yt" by (simp add: lb)
  then have ul: "unique_labels ?yt ?yp = labels st"
    by (simp add: unique_labels_subset lb)
  have rep: "classification_report ?yt ?yp (labels st) =
    Inr \<lparr>report_rows = zip (labels st) (map (class_scores ?yt ?yp) (labels st)),
         weighted_avg =
           \<lparr>row_precision = fst (precision_recall_fscore_support ?yt ?yp),
            row_recall = fst (snd (precision_recall_fscore_support ?yt ?yp)),
            row_f1 = snd (snd (precision_recall_fscore_support ?yt ?yp)),
            row_support = sum_list (map row_support (map (class_scores ?yt ?yp) (labels st)))\<rparr>\<rparr>"
    by (simp add: classification_report_def ul Let_def split: prod.splits)
  have acc: "accuracy_of ?yp ?yt =
    Inr (real (length (filter (\<lambda>(p, t). p = t) (zip ?yp ?yt))) / real (length (dataset st)))"
    using ne by (simp add: accuracy_of_def)
  show ?thesis
    using bs by (simp add: evaluate_def loop rep acc split: prod.splits)
qed

lemma softmax_nth:
  assumes "x \<noteq> []" "softmax x = Inr p"
  shows "length p = length x"
    and "j < length x \<Longrightarrow>
      p ! j = exp (x ! j - Max (set x)) / (\<Sum>u\<leftarrow>x. exp (u - Max (set x)))"
  using assms softmax_expand[OF assms(1)] by auto

lemma dataset_get_nat: "n < length xs \<Longrightarrow> dataset_get xs (int n) = Inr (xs ! n)"
  by (simp add: dataset_get_def)

lemma infer_sample_wf:
  assumes wf: "well_formed D g st" and n: "n < length (dataset st)"
  shows "\<exists>p. softmax (score_row g st (dataset st ! n)) = Inr p \<and>
    infer_sample g st (int n) =
      Inr \<lparr>index = int n, true_label = sample_label (dataset st ! n),
           predicted_label = predicted g st (dataset st ! n),
           confidence = p ! argmax_index (score_row g st (dataset st ! n)),
           all_scores = zip (labels st) p\<rparr>"
proof -
  let ?s = "dataset st ! n"
  have mem: "?s \<in> set (dataset st)" using n by simp
  have A: "list_all (\<lambda>a. length a = D) [g (sample_image ?s)]"
    using wf mem by (auto simp: well_formed_def list_all_iff)
  have B: "list_all (\<lambda>b. length b = D) (label_embeddings st)"
    using wf by (simp add: well_formed_def)
  have dot: "np_dot_T [g (sample_image ?s)] (label_embeddings st) = Inr [score_row g st ?s]"
    using np_dot_T_wf[OF B A] by (simp add: score_row_def)
  have ne: "score_row g st ?s \<noteq> []"
    using wf by (auto simp: well_formed_def score_row_def)
  from softmax_sum[OF ne] obtain p where p: "softmax (score_row g st ?s) = Inr p" by blast
  have lk: "list_get (labels st) (argmax_index (score_row g st ?s)) = Inr (predicted g st ?s)"
    using predicted_in_labels(1)[OF wf] by (simp add: list_get_def predicted_def)
  show ?thesis
    by (rule exI[of _ p])
       (simp add: infer_sample_def dataset_get_nat[OF n] dot np_argmax_index[OF ne] p lk)
qed

lemma exp_four_fifths_bounds: "(2198/1000::real) < exp (4/5)" "exp (4/5) < (2272/1000::real)"
proof -
  have l: "(1 + 1/5 + (1/5)\<^sup>2 / 2 :: real) \<le> exp (1/5)"
    by (rule exp_lower_Taylor_quadratic) simp
  have "exp (4/5 :: real) = exp (of_nat 4 * (1/5))" by simp
  also have "\<dots> = exp (1/5) ^ 4" by (rule exp_of_nat_mult)
  finally have e4: "exp (4/5 :: real) = exp (1/5) ^ 4" .
  have "(1 + 1/5 + (1/5)\<^sup>2 / 2 :: real) ^ 4 \<le> exp (1/5) ^ 4"
    using l by (rule power_mono) simp
  moreover have "(2198/1000::real) < (1 + 1/5 + (1/5)\<^sup>2 / 2) ^ 4"
    by (simp add: power2_eq_square power4_eq_xxxx)
  ultimately show "(2198/1000::real) < exp (4/5)" unfolding e4 by linarith
  have u: "exp (1/20 :: real) \<le> 1 + 1/20 + (1/20)\<^sup>2"
    by (rule exp_bound) simp_all
  have "exp (4/5 :: real) = exp (of_nat 16 * (1/20))" by simp
  also have "\<dots> = exp (1/20) ^ 16" by (rule exp_of_nat_mult)
  finally have e16: "exp (4/5 :: real) = exp (1/20) ^ 16" .
  have "exp (1/20 :: real) ^ 16 \<le> (1 + 1/20 + (1/20)\<^sup>2) ^ 16"
    using u by (rule power_mono) simp
  moreover have "(1 + 1/20 + (1/20)\<^sup>2 :: real) ^ 16 < 2272/1000"
    by (simp add: power2_eq_square power_divide)
  ultimately show "exp (4/5) < (2272/1000::real)" unfolding e16 by linarith
qed

lemma softmax_example:
  "\<exists>p0 p1. softmax [9/10, 1/10] = Inr [p0, p1] \<and> \<bar>p0 - 69/100\<bar> < 5/1000 \<and> \<bar>p1 - 31/100\<bar> < 5/1000"
proof -
  let ?e = "exp (- (4/5) :: real)"
  have sm: "softmax [9/10, 1/10] = Inr [1 / (1 + ?e), ?e / (1 + ?e)]"
    by (simp add: softmax_def np_max_def)
  have inv: "?e = 1 / exp (4/5)" by (simp add: exp_minus inverse_eq_divide)
  have pos: "0 < exp (4/5 :: real)" by simp
  note b = exp_four_fifths_bounds
  have p0: "1 / (1 + ?e) = exp (4/5) / (exp (4/5) + 1)"
    unfolding inv using pos by (simp add: field_simps)
  have p1: "?e / (1 + ?e) = 1 / (exp (4/5) + 1)"
    unfolding inv using pos by (simp add: field_simps)
  have "(685/1000::real) < exp (4/5) / (exp (4/5) + 1)" "exp (4/5) / (exp (4/5) + 1) < (695/1000::real)"
    using b pos by (simp_all add: field_simps)
  then have "\<bar>exp (4/5) / (exp (4/5) + 1) - 69/100\<bar> < (5/1000::real)"
    by linarith
  moreover have "(305/1000::real) < 1 / (exp (4/5) + 1)" "1 / (exp (4/5) + 1) < (315/1000::real)"
    using b pos by (simp_all add: field_simps)
  then have "\<bar>1 / (exp (4/5) + 1) - 31/100\<bar> < (5/1000::real)"
    by linarith
  ultimately show ?thesis using sm p0 p1 by simp
qed

lemma sort_cat_dog: "sort (remdups [''cat'', ''dog'']) = [''cat'', ''dog'']"
  by code_simp

lemma cat_dog_prepared: "prepare_dataset cat_dog_encoder cat_dog_dataset = Inr cat_dog_state"
  by (simp add: prepare_dataset_def sort_cat_dog clip_label_def rectangular_def ncols_def
      norm_axis0_def divide_rows_def upt_rec)

lemma evaluate_prepared:
  assumes prep: "prepare_dataset txt ds = Inr st" and ne: "ds \<noteq> []"
    and dt: "\<forall>t. length (txt t) = D" and dg: "\<forall>s\<in>set ds. length (g (sample_image s)) = D"
    and bs: "0 < batch_size"
  shows "\<exists>r. evaluate g batch_size st = Inr r \<and>
    predictions r = map (predicted g st) ds \<and>
    true_labels r = map sample_label ds \<and>
    raw_scores r = map (score_row g st) ds \<and>
    report_rows (detailed_report r) =
      zip (labels st) (map (class_scores (true_labels r) (predictions r)) (labels st)) \<and>
    weighted_avg (detailed_report r) =
      \<lparr>row_precision = precision (result_metrics r), row_recall = recall (result_metrics r),
       row_f1 = f1_score (result_metrics r),
       row_support = sum_list (map row_support
         (map (class_scores (true_labels r) (predictions r)) (labels st)))\<rparr> \<and>
    accuracy_of (predictions r) (true_labels r) = Inr (accuracy (result_metrics r)) \<and>
    precision_recall_fscore_support (true_labels r) (predictions r) =
      (precision (result_metrics r), recall (result_metrics r), f1_score (result_metrics r))"
proof -
  have wf: "well_formed D g st" using prepare_dataset_wf[OF prep ne dt dg] .
  note f = prepare_dataset_fields[OF prep]
  have a: "dataset st \<noteq> []" using ne f(1) by simp
  have b: "labels st = sort (remdups (map sample_label (dataset st)))" using f(1,2) by simp
  show ?thesis
    unfolding evaluate_wf[OF wf bs a b] using ne
    by (simp add: f(1) accuracy_of_def)
qed

lemma sqrt_25: "sqrt 25 = 5"
  by (rule real_sqrt_unique) simp_all

lemma three_four_prepared:
  "prepare_dataset three_four_encoder cat_dog_dataset =
     Inr \<lparr>dataset = cat_dog_dataset, labels = [''cat'', ''dog''],
          label_embeddings = [[3/5, 0], [4/5, 1]]\<rparr>"
  by (simp add: prepare_dataset_def sort_cat_dog clip_label_def rectangular_def ncols_def
      norm_axis0_def divide_rows_def upt_rec sqrt_25)

lemma divide_rows_nth:
  assumes "i < length M" "j < length (M ! i)" "j < length v"
  shows "divide_rows M v ! i ! j = M ! i ! j / v ! j"
  using assms by (simp add: divide_rows_def)

lemma matches_card:
  assumes "length yp = length yt"
  shows "length (filter (\<lambda>(p, t). p = t) (zip yp yt)) = card {i. i < length yt \<and> yp ! i = yt ! i}"
proof -
  have "{i. i < length (zip yp yt) \<and> (\<lambda>(p, t). p = t) (zip yp yt ! i)}
      = {i. i < length yt \<and> yp ! i = yt ! i}"
    using assms by auto
  then show ?thesis by (simp add: length_filter_conv_card)
qed

lemma evaluate_Inr_metrics:
  assumes "evaluate g batch_size st = Inr r"
  shows "accuracy_of (predictions r) (true_labels r) = Inr (accuracy (result_metrics r))"
    and "precision_recall_fscore_support (true_labels r) (predictions r) =
      (precision (result_metrics r), recall (result_metrics r), f1_score (result_metrics r))"
  using assms by (auto simp: evaluate_def split: if_splits sum.splits prod.splits)

lemma accuracy_of_Inr:
  assumes "accuracy_of yp yt = Inr a"
  shows "length yp = length yt" and "yt \<noteq> []"
    and "a = real (card {i. i < length yt \<and> yp ! i = yt ! i}) / real (length yt)"
proof -
  show l: "length yp = length yt" and "yt \<noteq> []"
    using assms by (auto simp: accuracy_of_def split: if_splits)
  show "a = real (card {i. i < length yt \<and> yp ! i = yt ! i}) / real (length yt)"
    using assms matches_card[OF l] by (auto simp: accuracy_of_def split: if_splits)
qed

lemma cat_dog_batch_labels:
  "unique_labels [''cat'', ''dog'', ''cat'', ''dog''] [''cat'', ''dog'', ''dog'', ''dog'']
     = [''cat'', ''dog'']"
  unfolding unique_labels_def by code_simp

lemma tp_sum_same: "tp_sum y y c = true_sum y c"
  by (induction y) (simp_all add: tp_sum_def true_sum_def)

lemma pred_sum_true_sum: "pred_sum y c = true_sum y c"
  by (simp add: pred_sum_def true_sum_def)

lemma true_sum_pos: "c \<in> set y \<Longrightarrow> 0 < true_sum y c"
  by (induction y) (auto simp: true_sum_def)

lemma tp_sum_unpredicted: "c \<notin> set y_pred \<Longrightarrow> tp_sum y_true y_pred c = 0"
  by (auto simp: tp_sum_def filter_empty_conv dest: set_zip_rightD)

lemma pred_sum_unpredicted: "c \<notin> set y_pred \<Longrightarrow> pred_sum y_pred c = 0"
  by (auto simp: pred_sum_def filter_empty_conv)

lemma class_scores_same:
  assumes "c \<in> set y"
  shows "class_scores y y c =
    \<lparr>row_precision = 1, row_recall = 1, row_f1 = 1, row_support = true_sum y c\<rparr>"
  using true_sum_pos[OF assms]
  by (simp add: class_scores_def tp_sum_same pred_sum_true_sum prf_divide_def)

lemma weighted_sum_ones:
  assumes "\<forall>r\<in>set rs. f r = (1::real)"
  shows "(\<Sum>(x, y)\<leftarrow>zip (map f rs) (map w rs). x * y) = sum_list (map w rs)"
  using assms by (induction rs) simp_all

lemma sum_list_pos_real:
  fixes xs :: "real list"
  assumes "xs \<noteq> []" "\<forall>x\<in>set xs. 0 < x"
  shows "0 < sum_list xs"
  using assms
proof (induction xs)
  case Nil
  then show ?case by simp
next
  case (Cons x xs)
  have "0 \<le> sum_list xs" using Cons.prems(2) by (intro sum_list_nonneg) auto
  with Cons.prems(2) show ?case by (simp add: add_pos_nonneg)
qed

lemma prfs_same:
  assumes "y \<noteq> []"
  shows "precision_recall_fscore_support y y = (1, 1, 1)"
proof -
  let ?ls = "sort (remdups y)"
  let ?rs = "map (class_scores y y) ?ls"
  let ?w = "map (\<lambda>r. real (row_support r)) ?rs"
  have ul: "unique_labels y y = ?ls" by (simp add: unique_labels_subset)
  have rows: "\<forall>r\<in>set ?rs. row_precision r = 1 \<and> row_recall r = 1 \<and> row_f1 r = 1 \<and> 0 < row_support r"
    by (auto simp: class_scores_same true_sum_pos)
  have "set ?ls = set y" by simp
  then have "?ls \<noteq> []" using assms by (metis set_empty)
  then have "?w \<noteq> []" by simp
  moreover have "\<forall>x\<in>set ?w. 0 < x" using rows by auto
  ultimately have pos: "0 < sum_list ?w" by (rule sum_list_pos_real)
  have "weighted_average (map f ?rs) ?w = 1" if "\<forall>r\<in>set ?rs. f r = 1" for f
    using weighted_sum_ones[OF that, of "\<lambda>r. real (row_support r)"] pos
    by (simp add: weighted_average_def prf_divide_def)
  then have "weighted_average (map row_precision ?rs) ?w = 1"
    "weighted_average (map row_recall ?rs) ?w = 1" "weighted_average (map row_f1 ?rs) ?w = 1"
    using rows by blast+
  then show ?thesis
    by (simp add: precision_recall_fscore_support_def ul Let_def)
qed

lemma one_sided_prepared:
  "prepare_dataset cat_dog_encoder one_sided_dataset = Inr one_sided_state"
  by (simp add: prepare_dataset_def sort_cat_dog clip_label_def rectangular_def ncols_def
      norm_axis0_def divide_rows_def upt_rec)

lemma one_sided_wf: "well_formed 2 (\<lambda>x. x) one_sided_state"
  by (simp add: well_formed_def)

lemma one_sided_labels:
  "unique_labels [''cat'', ''dog''] [''cat'', ''cat''] = [''cat'', ''dog'']"
  unfolding unique_labels_def by code_simp

lemma zip_map_self: "zip xs (map f xs) = map (\<lambda>x. (x, f x)) xs"
  by (induction xs) simp_all

lemma sum_true_sum:
  "sum_list (map (true_sum y) (sort (remdups y))) = length y"
proof -
  have "sum_list (map (true_sum y) (sort (remdups y))) = sum (true_sum y) (set (sort (remdups y)))"
    by (rule sum_list_distinct_conv_sum_set) simp
  also have "\<dots> = sum (count_list y) (set y)"
    by (simp add: true_sum_def count_list_eq_length_filter eq_commute)
  also have "\<dots> = length y" by (rule sum_count_set) simp_all
  finally show ?thesis .
qed

lemma real_sum_list_map: "real (sum_list (map f xs)) = (\<Sum>x\<leftarrow>xs. real (f x))"
  by (induction xs) simp_all

lemma weighted_average_rows:
  "weighted_average (map f rs) (map w rs) = prf_divide (\<Sum>r\<leftarrow>rs. w r * f r) (\<Sum>r\<leftarrow>rs. w r)"
proof -
  have "(\<Sum>(x, y)\<leftarrow>zip (map f rs) (map w rs). x * y) = (\<Sum>r\<leftarrow>rs. w r * f r)"
    by (induction rs) (simp_all add: mult.commute)
  then show ?thesis by (simp add: weighted_average_def)
qed

lemma prfs_weighted_rows:
  assumes ul: "unique_labels y_true y_pred = sort (remdups y_true)" and ne: "y_true \<noteq> []"
  shows "precision_recall_fscore_support y_true y_pred =
    ((\<Sum>c\<leftarrow>sort (remdups y_true). real (row_support (class_scores y_true y_pred c))
          * row_precision (class_scores y_true y_pred c)) / real (length y_true),
     (\<Sum>c\<leftarrow>sort (remdups y_true). real (row_support (class_scores y_true y_pred c))
          * row_recall (class_scores y_true y_pred c)) / real (length y_true),
     (\<Sum>c\<leftarrow>sort (remdups y_true). real (row_support (class_scores y_true y_pred c))
          * row_f1 (class_scores y_true y_pred c)) / real (length y_true))"
proof -
  let ?ls = "sort (remdups y_true)"
  let ?rs = "map (class_scores y_true y_pred) ?ls"
  have "(\<Sum>r\<leftarrow>?rs. real (row_support r)) = real (sum_list (map (true_sum y_true) ?ls))"
    by (simp add: comp_def class_scores_def real_sum_list_map)
  also have "\<dots> = real (length y_true)" by (simp only: sum_true_sum)
  finally have w: "(\<Sum>r\<leftarrow>?rs. real (row_support r)) = real (length y_true)" .
  have "weighted_average (map f ?rs) (map (\<lambda>r. real (row_support r)) ?rs) =
      (\<Sum>c\<leftarrow>?ls. real (row_support (class_scores y_true y_pred c)) * f (class_scores y_true y_pred c))
        / real (length y_true)" for f
    unfolding weighted_average_rows w using ne
    by (simp add: prf_divide_def comp_def)
  then show ?thesis
    by (simp add: precision_recall_fscore_support_def ul Let_def)
qed

lemma binade:
  assumes "0 < x"
  shows "2 powr of_int \<lfloor>log 2 x\<rfloor> \<le> x" and "x < 2 powr (of_int \<lfloor>log 2 x\<rfloor> + 1)"
proof -
  have "of_int \<lfloor>log 2 x\<rfloor> \<le> log 2 x" by simp
  then show "2 powr of_int \<lfloor>log 2 x\<rfloor> \<le> x"
    using assms by (simp add: powr_le_iff)
  have "log 2 x < of_int \<lfloor>log 2 x\<rfloor> + 1" by linarith
  then show "x < 2 powr (of_int \<lfloor>log 2 x\<rfloor> + 1)"
    using assms by (simp add: less_powr_iff)
qed

lemma floor_log2_unique:
  assumes "2 powr of_int E \<le> x" "x < 2 powr (of_int E + 1)"
  shows "\<lfloor>log 2 x\<rfloor> = E"
proof (rule floor_unique)
  have pos: "0 < x" using assms(1) by (smt (verit) powr_gt_zero)
  show "of_int E \<le> log 2 x" using assms(1) pos by (simp add: le_log_iff)
  show "log 2 x < of_int E + 1" using assms(2) pos by (simp add: log_less_iff)
qed

lemma round_double_in_binade:
  assumes "2 powr of_int E \<le> \<bar>x\<bar>" "\<bar>x\<bar> < 2 powr (of_int E + 1)"
  shows "round_double x = of_int (round (x / 2 powr of_int (E - 52))) * 2 powr of_int (E - 52)"
proof -
  have "x \<noteq> 0" using assms(1) by (smt (verit) powr_gt_zero)
  moreover have "\<lfloor>log 2 \<bar>x\<bar>\<rfloor> = E" using assms by (rule floor_log2_unique)
  ultimately show ?thesis by (simp add: round_double_def Let_def)
qed

lemma round_double_pow2:
  "round_double (2 powr of_int E) = 2 powr of_int E"
  "round_double (- (2 powr of_int E)) = - (2 powr of_int E)"
proof -
  have a: "2 powr of_int E \<le> \<bar>(2::real) powr of_int E\<bar>"
    "\<bar>(2::real) powr of_int E\<bar> < 2 powr (of_int E + 1)"
    by (simp_all add: powr_add)
  have q: "(2::real) powr of_int E / 2 powr of_int (E - 52) = of_int (2 ^ 52)"
    by (simp add: powr_diff)
  have r: "round ((2::real) powr of_int E / 2 powr of_int (E - 52)) = 2 ^ 52"
    unfolding q by (rule round_of_int)
  have inv: "of_int (2 ^ 52) * 2 powr of_int (E - 52) = (2::real) powr of_int E"
    by (simp add: powr_diff)
  show "round_double (2 powr of_int E) = 2 powr of_int E"
    using round_double_in_binade[OF a] r inv by simp
  have a': "2 powr of_int E \<le> \<bar>- ((2::real) powr of_int E)\<bar>"
    "\<bar>- ((2::real) powr of_int E)\<bar> < 2 powr (of_int E + 1)"
    by (simp_all add: powr_add)
  have q': "- ((2::real) powr of_int E) / 2 powr of_int (E - 52) = of_int (- (2 ^ 52))"
    by (simp add: powr_diff)
  have r': "round (- ((2::real) powr of_int E) / 2 powr of_int (E - 52)) = - (2 ^ 52)"
    unfolding q' by (rule round_of_int)
  show "round_double (- (2 powr of_int E)) = - (2 powr of_int E)"
    using round_double_in_binade[OF a'] r' inv by simp
qed

lemma round_double_values:
  "round_double 1 = 1" "round_double 2 = 2" "round_double (1/2) = 1/2"
  "round_double (- (1 / 2 ^ 57)) = - (1 / 2 ^ 57)"
  using round_double_pow2(1)[of 0] round_double_pow2(1)[of 1] round_double_pow2(1)[of "-1"]
    round_double_pow2(2)[of "-57"]
  by (simp_all add: powr_minus_divide)

lemma round_double_below_one:
  assumes "1 - 1 / 2 ^ 55 \<le> y" "y < 1"
  shows "round_double y = 1"
proof -
  have a: "2 powr of_int (-1) \<le> \<bar>y\<bar>" "\<bar>y\<bar> < 2 powr (of_int (-1) + 1)"
    using assms by (simp_all add: powr_minus_divide)
  have u: "(2::real) powr of_int (-1 - 52) = 1 / 2 ^ 53"
    by (simp add: powr_minus_divide)
  have "round (y * 2 ^ 53) = 2 ^ 53"
  proof (rule round_unique)
    show "y * 2 ^ 53 - 1 / 2 < of_int (2 ^ 53)" using assms(2) by simp
    have "(1 - 1 / 2 ^ 55) * 2 ^ 53 \<le> y * 2 ^ 53" using assms(1) by simp
    then show "of_int (2 ^ 53) \<le> y * 2 ^ 53 + 1 / 2" by simp
  qed
  then show ?thesis
    using round_double_in_binade[OF a] by (simp add: powr_neg_numeral)
qed

lemma exp_tiny: "1 - 1 / 2 ^ 55 \<le> exp (- (1 / 2 ^ 57) :: real)" "exp (- (1 / 2 ^ 57) :: real) < 1"
proof -
  have "1 + (- (1 / 2 ^ 57)) \<le> exp (- (1 / 2 ^ 57) :: real)" by (rule exp_ge_add_one_self)
  then show "1 - 1 / 2 ^ 55 \<le> exp (- (1 / 2 ^ 57) :: real)" by simp
  show "exp (- (1 / 2 ^ 57) :: real) < 1" by simp
qed

lemma softmax_fl_tie:
  "softmax_fl round_double [0, 1 / 2 ^ 57] = Inr [1/2, 1/2]"
proof -
  have e: "round_double (exp (- (1 / 2 ^ 57))) = 1"
    using exp_tiny by (rule round_double_below_one)
  have z: "round_double 0 = 0" by (simp add: round_double_def)
  show ?thesis
    by (simp add: softmax_fl_def np_max_def fl_sum_def round_double_values[simplified]
        e[simplified] z)
qed

lemma round_double_pos_bounds:
  assumes "0 < x"
  shows "2 powr of_int \<lfloor>log 2 x\<rfloor> \<le> round_double x"
    and "round_double x \<le> 2 powr (of_int \<lfloor>log 2 x\<rfloor> + 1)"
proof -
  let ?E = "\<lfloor>log 2 x\<rfloor>"
  let ?u = "(2::real) powr of_int (?E - 52)"
  have u: "0 < ?u" by simp
  have rd: "round_double x = of_int (round (x / ?u)) * ?u"
    using assms by (simp add: round_double_def Let_def)
  have lo: "of_int (2 ^ 52) \<le> x / ?u"
    using binade(1)[OF assms] by (simp add: powr_diff field_simps)
  have hi: "x / ?u \<le> of_int (2 ^ 53)"
    using binade(2)[OF assms] by (simp add: powr_diff powr_add field_simps)
  have "round (of_int (2 ^ 52) :: real) \<le> round (x / ?u)" using lo by (rule round_mono)
  then have "(2 ^ 52 :: real) \<le> of_int (round (x / ?u))"
    unfolding round_of_int by (metis of_int_le_iff of_int_numeral of_int_power)
  then have "2 ^ 52 * ?u \<le> of_int (round (x / ?u)) * ?u"
    using u by (intro mult_right_mono) simp_all
  then show "2 powr of_int ?E \<le> round_double x"
    unfolding rd by (simp add: powr_diff)
  have "round (x / ?u) \<le> round (of_int (2 ^ 53) :: real)" using hi by (rule round_mono)
  then have "of_int (round (x / ?u)) \<le> (2 ^ 53 :: real)"
    unfolding round_of_int by (metis of_int_le_iff of_int_numeral of_int_power)
  then have "of_int (round (x / ?u)) * ?u \<le> 2 ^ 53 * ?u"
    using u by (intro mult_right_mono) simp_all
  then show "round_double x \<le> 2 powr (of_int ?E + 1)"
    unfolding rd by (simp add: powr_diff powr_add)
qed

lemma round_double_neg_bounds:
  assumes "x < 0"
  shows "- (2 powr (of_int \<lfloor>log 2 (- x)\<rfloor> + 1)) \<le> round_double x"
    and "round_double x \<le> - (2 powr of_int \<lfloor>log 2 (- x)\<rfloor>)"
proof -
  let ?E = "\<lfloor>log 2 (- x)\<rfloor>"
  let ?u = "(2::real) powr of_int (?E - 52)"
  have u: "0 < ?u" by simp
  have ax: "\<bar>x\<bar> = - x" "0 < - x" using assms by simp_all
  have rd: "round_double x = of_int (round (x / ?u)) * ?u"
    using assms by (simp add: round_double_def Let_def ax(1))
  have hi: "x / ?u \<le> of_int (- (2 ^ 52))"
    using binade(1)[OF ax(2)] by (simp add: powr_diff field_simps)
  have lo: "of_int (- (2 ^ 53)) \<le> x / ?u"
    using binade(2)[OF ax(2)] by (simp add: powr_diff powr_add field_simps)
  have "round (x / ?u) \<le> round (of_int (- (2 ^ 52)) :: real)" using hi by (rule round_mono)
  then have "of_int (round (x / ?u)) \<le> (- (2 ^ 52) :: real)"
    unfolding round_of_int
    by (metis of_int_le_iff of_int_minus of_int_numeral of_int_power)
  then have "of_int (round (x / ?u)) * ?u \<le> - (2 ^ 52) * ?u"
    using u by (intro mult_right_mono) simp_all
  then show "round_double x \<le> - (2 powr of_int ?E)"
    unfolding rd by (simp add: powr_diff)
  have "round (of_int (- (2 ^ 53)) :: real) \<le> round (x / ?u)" using lo by (rule round_mono)
  then have "(- (2 ^ 53) :: real) \<le> of_int (round (x / ?u))"
    unfolding round_of_int
    by (metis of_int_le_iff of_int_minus of_int_numeral of_int_power)
  then have "- (2 ^ 53) * ?u \<le> of_int (round (x / ?u)) * ?u"
    using u by (intro mult_right_mono) simp_all
  then show "- (2 powr (of_int ?E + 1)) \<le> round_double x"
    unfolding rd by (simp add: powr_diff powr_add)
qed

lemma round_double_zero: "round_double 0 = 0"
  by (simp add: round_double_def)

lemma round_double_mono:
  assumes "x \<le> y"
  shows "round_double x \<le> round_double y"
proof -
  consider "x = y" | "0 < x" "x < y" | "x < y" "y < 0" | "x < 0" "0 \<le> y" | "x = 0" "0 < y"
    using assms by linarith
  then show ?thesis
  proof cases
    case 1
    then show ?thesis by simp
  next
    case 2
    then have y: "0 < y" by simp
    have le: "\<lfloor>log 2 x\<rfloor> \<le> \<lfloor>log 2 y\<rfloor>"
      using 2 by (intro floor_mono) (simp add: log_le_cancel_iff)
    show ?thesis
    proof (cases "\<lfloor>log 2 x\<rfloor> = \<lfloor>log 2 y\<rfloor>")
      case True
      let ?u = "(2::real) powr of_int (\<lfloor>log 2 y\<rfloor> - 52)"
      have "x / ?u \<le> y / ?u" using 2 by (simp add: divide_right_mono)
      then have "round (x / ?u) \<le> round (y / ?u)" by (rule round_mono)
      then have "of_int (round (x / ?u)) * ?u \<le> of_int (round (y / ?u)) * ?u" by simp
      then show ?thesis using 2 y True by (simp add: round_double_def Let_def)
    next
      case False
      with le have "\<lfloor>log 2 x\<rfloor> + 1 \<le> \<lfloor>log 2 y\<rfloor>" by simp
      then have "of_int \<lfloor>log 2 x\<rfloor> + 1 \<le> (of_int \<lfloor>log 2 y\<rfloor> :: real)" by linarith
      then have "(2::real) powr (of_int \<lfloor>log 2 x\<rfloor> + 1) \<le> 2 powr of_int \<lfloor>log 2 y\<rfloor>"
        by (simp add: powr_le_cancel_iff)
      with round_double_pos_bounds(2)[OF 2(1)] round_double_pos_bounds(1)[OF y]
      show ?thesis by linarith
    qed
  next
    case 3
    then have x: "x < 0" by simp
    have le: "\<lfloor>log 2 (- y)\<rfloor> \<le> \<lfloor>log 2 (- x)\<rfloor>"
      using 3 by (intro floor_mono) (simp add: log_le_cancel_iff)
    show ?thesis
    proof (cases "\<lfloor>log 2 (- y)\<rfloor> = \<lfloor>log 2 (- x)\<rfloor>")
      case True
      let ?u = "(2::real) powr of_int (\<lfloor>log 2 (- x)\<rfloor> - 52)"
      have "x / ?u \<le> y / ?u" using 3 by (simp add: divide_right_mono)
      then have "round (x / ?u) \<le> round (y / ?u)" by (rule round_mono)
      then have "of_int (round (x / ?u)) * ?u \<le> of_int (round (y / ?u)) * ?u" by simp
      moreover have "\<bar>x\<bar> = - x" "\<bar>y\<bar> = - y" using 3 by simp_all
      ultimately show ?thesis using 3 x True by (simp add: round_double_def Let_def)
    next
      case False
      with le have "\<lfloor>log 2 (- y)\<rfloor> + 1 \<le> \<lfloor>log 2 (- x)\<rfloor>" by simp
      then have "of_int \<lfloor>log 2 (- y)\<rfloor> + 1 \<le> (of_int \<lfloor>log 2 (- x)\<rfloor> :: real)" by linarith
      then have "(2::real) powr (of_int \<lfloor>log 2 (- y)\<rfloor> + 1) \<le> 2 powr of_int \<lfloor>log 2 (- x)\<rfloor>"
        by (simp add: powr_le_cancel_iff)
      with round_double_neg_bounds(2)[OF x] round_double_neg_bounds(1)[OF 3(2)]
      show ?thesis by linarith
    qed
  next
    case 4
    have "round_double x \<le> 0"
      using round_double_neg_bounds(2)[OF 4(1)]
      by (smt (verit) powr_gt_zero)
    moreover have "0 \<le> round_double y"
    proof (cases "y = 0")
      case True
      then show ?thesis by (simp add: round_double_zero)
    next
      case False
      with 4 have "0 < y" by simp
      from round_double_pos_bounds(1)[OF this] show ?thesis
        by (smt (verit) powr_gt_zero)
    qed
    ultimately show ?thesis by simp
  next
    case 5
    from round_double_pos_bounds(1)[OF 5(2)] show ?thesis
      unfolding 5(1) round_double_zero by (smt (verit) powr_gt_zero)
  qed
qed

lemma fl_sum_exact: "fl_sum (\<lambda>x. x) xs = sum_list xs"
proof (cases xs)
  case Nil
  then show ?thesis by (simp add: fl_sum_def)
next
  case (Cons a as)
  have "fold (\<lambda>b acc. acc + b) as c = c + sum_list as" for c :: real
    by (induction as arbitrary: c) simp_all
  then show ?thesis by (simp add: Cons fl_sum_def)
qed

lemma softmax_fl_exact: "softmax_fl (\<lambda>x. x) x = softmax x"
  by (simp add: softmax_fl_def softmax_def Let_def fl_sum_exact split: sum.splits)

lemma fl_sum_nonneg:
  assumes mono: "\<forall>a b. a \<le> b \<longrightarrow> rnd a \<le> rnd b" and zero: "rnd 0 = (0::real)"
    and nn: "\<forall>e\<in>set xs. 0 \<le> e"
  shows "0 \<le> fl_sum rnd xs"
proof (cases xs)
  case Nil
  then show ?thesis by (simp add: fl_sum_def)
next
  case (Cons a as)
  have "0 \<le> fold (\<lambda>b acc. rnd (acc + b)) bs c" if "0 \<le> c" "\<forall>e\<in>set bs. 0 \<le> e" for bs c
    using that
  proof (induction bs arbitrary: c)
    case Nil
    then show ?case by simp
  next
    case (Cons b bs)
    have "rnd 0 \<le> rnd (c + b)" using mono Cons.prems by simp
    then have "0 \<le> rnd (c + b)" by (simp add: zero)
    with Cons show ?case by simp
  qed
  with nn show ?thesis by (simp add: Cons fl_sum_def)
qed

lemma softmax_fl_argmax:
  assumes mono: "\<forall>a b. a \<le> b \<longrightarrow> rnd a \<le> rnd b" and zero: "rnd 0 = (0::real)"
    and ne: "s \<noteq> []"
  shows "\<exists>p. softmax_fl rnd s = Inr p \<and> length p = length s \<and>
    p ! argmax_index s = Max (set p) \<and> argmax_index p \<le> argmax_index s"
proof -
  let ?m = "Max (set s)"
  let ?e = "\<lambda>v. rnd (exp (rnd (v - ?m)))"
  let ?S = "fl_sum rnd (map ?e s)"
  let ?p = "map (\<lambda>v. rnd (?e v / ?S)) s"
  let ?k = "argmax_index s"
  have sm: "softmax_fl rnd s = Inr ?p"
    using ne by (simp add: softmax_fl_def np_max_Max Let_def comp_def)
  have e0: "0 \<le> ?e v" for v
  proof -
    have "rnd 0 \<le> rnd (exp (rnd (v - ?m)))" using mono by simp
    then show ?thesis by (simp add: zero)
  qed
  have S0: "0 \<le> ?S" by (rule fl_sum_nonneg[OF mono zero]) (auto simp: e0)
  have step: "rnd (?e a / ?S) \<le> rnd (?e b / ?S)" if "a \<le> b" for a b
  proof -
    have "rnd (a - ?m) \<le> rnd (b - ?m)" using mono that by simp
    then have "?e a \<le> ?e b" using mono by simp
    then have "?e a / ?S \<le> ?e b / ?S" using S0 by (rule divide_right_mono)
    then show ?thesis using mono by simp
  qed
  note a = argmax_index_props[OF ne]
  have len: "length ?p = length s" by simp
  have pne: "?p \<noteq> []" using ne by simp
  have best: "\<forall>j<length ?p. ?p ! j \<le> ?p ! ?k"
    using a(1,2) step by simp
  have kp: "?k < length ?p" using a(1) by simp
  have mx: "?p ! ?k = Max (set ?p)" using kp best by (rule first_max_is_Max)
  note b = argmax_index_props[OF pne]
  have "argmax_index ?p \<le> ?k"
  proof (rule ccontr)
    assume "\<not> argmax_index ?p \<le> ?k"
    then have "?k < argmax_index ?p" by simp
    with b(3) have "?p ! ?k < ?p ! argmax_index ?p" by blast
    moreover have "?p ! argmax_index ?p \<le> ?p ! ?k" using best b(1) by blast
    ultimately show False by simp
  qed
  with sm len mx show ?thesis by blast
qed

lemma sort_dog_cat: "sort (remdups [''dog'', ''cat'']) = [''cat'', ''dog'']"
  by code_simp

lemma tie_prepared: "prepare_dataset cat_dog_encoder tie_dataset = Inr tie_state"
  by (simp add: prepare_dataset_def sort_dog_cat clip_label_def rectangular_def ncols_def
      norm_axis0_def divide_rows_def upt_rec)

lemma scorer_selects_first_max:
  assumes prep: "prepare_dataset txt ds = Inr st"
    and dt: "\<forall>t. length (txt t) = D"
    and dg: "\<forall>s\<in>set ds. length (g (sample_image s)) = D"
    and bs: "0 < batch_size" and n: "n < length ds"
  shows "\<exists>r q. evaluate g batch_size st = Inr r \<and> infer_sample g st (int n) = Inr q \<and>
    predictions r ! n = labels st ! argmax_index (score_row g st (ds ! n)) \<and>
    predicted_label q = labels st ! argmax_index (score_row g st (ds ! n)) \<and>
    score_row g st (ds ! n) \<noteq> [] \<and> length (score_row g st (ds ! n)) = length (labels st)"
proof -
  have ne: "ds \<noteq> []" using n by auto
  have wf: "well_formed D g st" using prepare_dataset_wf[OF prep ne dt dg] .
  have ds: "dataset st = ds" using prepare_dataset_fields(1)[OF prep] .
  have n': "n < length (dataset st)" using n ds by simp
  from infer_sample_wf[OF wf n'] obtain q where q: "infer_sample g st (int n) = Inr q"
    "predicted_label q = predicted g st (ds ! n)"
    by (auto simp: ds)
  from evaluate_prepared[OF prep ne dt dg bs]
  obtain r where r: "evaluate g batch_size st = Inr r" "predictions r = map (predicted g st) ds"
    by blast
  have "score_row g st (ds ! n) \<noteq> []" "length (score_row g st (ds ! n)) = length (labels st)"
    using wf by (auto simp: well_formed_def score_row_def)
  with q r n show ?thesis by (auto simp: predicted_def)
qed

subsection \<open>softmax on a score vector\<close>

text \<open>
  C4. On every score vector (one score per label, so not empty) \<open>softmax\<close> returns
  probabilities that sum to 1, and adding a constant \<open>c\<close> to every score leaves the
  result unchanged. Over the reals both hold exactly.
\<close>

theorem softmax_sum_one_shift_invariant:
  assumes "s \<noteq> []"
  shows "\<exists>p. softmax s = Inr p \<and> sum_list p = 1 \<and> softmax (map (\<lambda>v. v + c) s) = Inr p"
  using softmax_sum[OF assms] by (auto simp: softmax_shift)

theorem softmax_sum_one_shift_invariant_witness:
  "[2, 1/2, -3] \<noteq> ([]::vec) \<and>
   (\<exists>p. softmax [2, 1/2, -3] = Inr p \<and> sum_list p = 1
      \<and> softmax (map (\<lambda>v. v + 10) [2, 1/2, -3]) = Inr p)"
  using softmax_sum_one_shift_invariant[of "[2, 1/2, -3]" 10] by simp

subsection \<open>Arg-max and ties\<close>

text \<open>
  C5. On every score vector \<open>np.argmax\<close> returns an index of the maximum that is below
  every other index of the maximum, and on \<open>[1.0, 1.0]\<close> it returns index 0. The
  scorer selects its label with it: the label that \<open>evaluate\<close> and
  \<open>inference_on_samples\<close> predict for a sample is the vocabulary entry at the lowest
  index at which the scores of the sample attain their maximum. An image that scores
  [1, 1] against the vocabulary cat, dog is predicted cat, the entry at index 0, by
  both, whatever its true label.
\<close>

theorem argmax_tie_lowest_index:
  "(x \<noteq> [] \<longrightarrow>
     (\<exists>k. np_argmax x = Inr k \<and> k < length x \<and> x ! k = Max (set x)
        \<and> (\<forall>j<length x. x ! j = Max (set x) \<longrightarrow> k \<le> j)))
   \<and> np_argmax [1, 1] = Inr 0
   \<and> (prepare_dataset txt ds = Inr st \<and> (\<forall>t. length (txt t) = D) \<and>
        (\<forall>s\<in>set ds. length (g (sample_image s)) = D) \<and> 0 < batch_size \<and> n < length ds \<longrightarrow>
     (\<exists>r q k. evaluate g batch_size st = Inr r \<and> infer_sample g st (int n) = Inr q \<and>
        k < length (labels st) \<and> length (score_row g st (ds ! n)) = length (labels st) \<and>
        predictions r ! n = labels st ! k \<and> predicted_label q = labels st ! k \<and>
        score_row g st (ds ! n) ! k = Max (set (score_row g st (ds ! n))) \<and>
        (\<forall>j<length (labels st).
           score_row g st (ds ! n) ! j = Max (set (score_row g st (ds ! n))) \<longrightarrow> k \<le> j)))
   \<and> prepare_dataset cat_dog_encoder tie_dataset = Inr tie_state
   \<and> score_row (\<lambda>x. x) tie_state (tie_dataset ! 0) = [1, 1]
   \<and> (\<exists>r q. evaluate (\<lambda>x. x) 32 tie_state = Inr r \<and>
        infer_sample (\<lambda>x. x) tie_state 0 = Inr q \<and>
        predictions r ! 0 = labels tie_state ! 0 \<and> predicted_label q = labels tie_state ! 0 \<and>
        labels tie_state ! 0 = ''cat'' \<and> true_label q = ''dog'')"
proof -
  have lowest: "\<exists>k. np_argmax y = Inr k \<and> k = argmax_index y \<and> k < length y \<and>
      y ! k = Max (set y) \<and> (\<forall>j<length y. y ! j = Max (set y) \<longrightarrow> k \<le> j)"
    if "y \<noteq> []" for y
  proof -
    note a = argmax_index_props[OF that]
    have m: "y ! argmax_index y = Max (set y)" using a(1,2) by (rule first_max_is_Max)
    have "argmax_index y \<le> j" if "j < length y" "y ! j = Max (set y)" for j
    proof (rule ccontr)
      assume "\<not> argmax_index y \<le> j"
      then have "y ! j < y ! argmax_index y" using a(3) by simp
      with that(2) m show False by simp
    qed
    with np_argmax_index[OF \<open>y \<noteq> []\<close>] a(1) m show ?thesis by blast
  qed
  have c1: "x \<noteq> [] \<longrightarrow>
     (\<exists>k. np_argmax x = Inr k \<and> k < length x \<and> x ! k = Max (set x)
        \<and> (\<forall>j<length x. x ! j = Max (set x) \<longrightarrow> k \<le> j))"
    using lowest[of x] by blast
  have c2: "np_argmax [1, 1] = Inr 0" by (simp add: np_argmax_def)
  have c3: "\<exists>r q k. evaluate g batch_size st = Inr r \<and> infer_sample g st (int n) = Inr q \<and>
        k < length (labels st) \<and> length (score_row g st (ds ! n)) = length (labels st) \<and>
        predictions r ! n = labels st ! k \<and> predicted_label q = labels st ! k \<and>
        score_row g st (ds ! n) ! k = Max (set (score_row g st (ds ! n))) \<and>
        (\<forall>j<length (labels st).
           score_row g st (ds ! n) ! j = Max (set (score_row g st (ds ! n))) \<longrightarrow> k \<le> j)"
    if h: "prepare_dataset txt ds = Inr st \<and> (\<forall>t. length (txt t) = D) \<and>
        (\<forall>s\<in>set ds. length (g (sample_image s)) = D) \<and> 0 < batch_size \<and> n < length ds"
  proof -
    from h have prep: "prepare_dataset txt ds = Inr st" and dt: "\<forall>t. length (txt t) = D"
      and dg: "\<forall>s\<in>set ds. length (g (sample_image s)) = D" and bs: "0 < batch_size"
      and n: "n < length ds"
      by auto
    let ?s = "score_row g st (ds ! n)"
    from scorer_selects_first_max[OF prep dt dg bs n]
    obtain r q where rq: "evaluate g batch_size st = Inr r" "infer_sample g st (int n) = Inr q"
      "predictions r ! n = labels st ! argmax_index ?s"
      "predicted_label q = labels st ! argmax_index ?s"
      "?s \<noteq> []" "length ?s = length (labels st)"
      by blast
    from lowest[OF rq(5)] have "argmax_index ?s < length ?s" "?s ! argmax_index ?s = Max (set ?s)"
      "\<forall>j<length ?s. ?s ! j = Max (set ?s) \<longrightarrow> argmax_index ?s \<le> j"
      by auto
    with rq show ?thesis by (intro exI[of _ r] exI[of _ q] exI[of _ "argmax_index ?s"]) simp
  qed
  have c4: "prepare_dataset cat_dog_encoder tie_dataset = Inr tie_state" by (rule tie_prepared)
  have c5: "score_row (\<lambda>x. x) tie_state (tie_dataset ! 0) = [1, 1]"
    by (simp add: score_row_def dot_def)
  have h2: "\<forall>t. length (cat_dog_encoder t) = 2" by simp
  have h3: "\<forall>s\<in>set tie_dataset. length ((\<lambda>x. x) (sample_image s)) = 2" by simp
  have h4: "0 < (32::int)" by simp
  have h5: "0 < length tie_dataset" by simp
  from scorer_selects_first_max[OF tie_prepared h2 h3 h4 h5]
  obtain r q where rq: "evaluate (\<lambda>x. x) 32 tie_state = Inr r"
    "infer_sample (\<lambda>x. x) tie_state (int 0) = Inr q"
    "predictions r ! 0 = labels tie_state ! argmax_index (score_row (\<lambda>x. x) tie_state (tie_dataset ! 0))"
    "predicted_label q = labels tie_state ! argmax_index (score_row (\<lambda>x. x) tie_state (tie_dataset ! 0))"
    by blast
  have tl: "true_label q = ''dog''"
    using rq(2)
    by (auto simp: infer_sample_def dataset_get_def np_dot_T_def list_get_def
        split: sum.splits if_splits)
  have "argmax_index (score_row (\<lambda>x. x) tie_state (tie_dataset ! 0)) = 0"
    unfolding c5 by (simp add: argmax_index_def)
  with rq tl have c6: "\<exists>r q. evaluate (\<lambda>x. x) 32 tie_state = Inr r \<and>
        infer_sample (\<lambda>x. x) tie_state 0 = Inr q \<and>
        predictions r ! 0 = labels tie_state ! 0 \<and> predicted_label q = labels tie_state ! 0 \<and>
        labels tie_state ! 0 = ''cat'' \<and> true_label q = ''dog''"
    by (intro exI[of _ r] exI[of _ q]) simp
  from c1 c2 c3 c4 c5 c6 show ?thesis by blast
qed

theorem argmax_tie_lowest_index_witness:
  "np_argmax [1/2, 3, 3, 2] = Inr 1 \<and> [1/2, 3, 3, 2] ! 1 = Max (set [1/2, 3, 3, 2::real]) \<and>
   (\<exists>r q. evaluate (\<lambda>x. x) 1 tie_state = Inr r \<and> infer_sample (\<lambda>x. x) tie_state 0 = Inr q \<and>
      predictions r ! 0 = ''cat'' \<and> predicted_label q = ''cat'')"
proof -
  note t = argmax_tie_lowest_index[of "[1/2, 3, 3, 2]" cat_dog_encoder tie_dataset tie_state 2
      "\<lambda>x. x" 1 0]
  have ne: "[1/2, 3, 3, 2] \<noteq> ([]::vec)" by simp
  from t ne obtain k where k: "np_argmax [1/2, 3, 3, 2] = Inr k"
    "[1/2, 3, 3, 2] ! k = Max (set [1/2, 3, 3, 2::real])"
    by blast
  from k(1) have k1: "k = 1" by (simp add: np_argmax_def)
  have h: "prepare_dataset cat_dog_encoder tie_dataset = Inr tie_state \<and>
      (\<forall>t. length (cat_dog_encoder t) = 2) \<and>
      (\<forall>s\<in>set tie_dataset. length ((\<lambda>x. x) (sample_image s)) = 2) \<and> 0 < (1::int) \<and>
      0 < length tie_dataset"
    using tie_prepared by simp
  from t h obtain r q j where b: "evaluate (\<lambda>x. x) 1 tie_state = Inr r"
    "infer_sample (\<lambda>x. x) tie_state (int 0) = Inr q"
    "predictions r ! 0 = labels tie_state ! j" "predicted_label q = labels tie_state ! j"
    "\<forall>i<length (labels tie_state).
       score_row (\<lambda>x. x) tie_state (tie_dataset ! 0) ! i
         = Max (set (score_row (\<lambda>x. x) tie_state (tie_dataset ! 0))) \<longrightarrow> j \<le> i"
    by blast
  have sr: "score_row (\<lambda>x. x) tie_state (tie_dataset ! 0) = [1, 1]"
    by (simp add: score_row_def dot_def)
  from b(5)[rule_format, of 0] have "j = 0" unfolding sr by simp
  with b have "evaluate (\<lambda>x. x) 1 tie_state = Inr r \<and> infer_sample (\<lambda>x. x) tie_state 0 = Inr q \<and>
      predictions r ! 0 = ''cat'' \<and> predicted_label q = ''cat''"
    by simp
  with k k1 show ?thesis by blast
qed

subsection \<open>Where softmax is applied\<close>

text \<open>
  C3, as stated, fails: on a 2-D batch \<open>softmax\<close> takes the maximum and the sum over
  the whole array, so the rows of the result do not sum to 1. On the batch of two
  images with all scores 0 every row sums to 1/2.
\<close>

theorem softmax_2d_rows_counterexample:
  "softmax_2d [[0, 0], [0, 0]] = Inr [[1/4, 1/4], [1/4, 1/4]] \<and>
   sum_list ([[1/4, 1/4], [1/4, 1/4]] ! 0) \<noteq> (1::real)"
  by (simp add: softmax_2d_def np_max_def)

text \<open>
  C3, amended. \<open>softmax\<close> is applied to the score vector of one image, in
  \<open>inference_on_samples\<close>: the maximum of that vector is subtracted from each score
  before exponentiating and each exponential is divided by the sum over that vector,
  so the probabilities reported for the image sum to 1. \<open>evaluate\<close> applies no softmax:
  its batch scores are returned as the raw dot products.
\<close>

theorem softmax_per_score_vector:
  assumes "prepare_dataset txt ds = Inr st"
    and "\<forall>t. length (txt t) = D"
    and "\<forall>s\<in>set ds. length (g (sample_image s)) = D"
    and "0 < batch_size" and "n < length ds"
  shows "\<exists>q r. infer_sample g st (int n) = Inr q \<and>
      map fst (all_scores q) = labels st \<and>
      map snd (all_scores q) =
        map (\<lambda>v. exp (v - Max (set (score_row g st (ds ! n))))
                / (\<Sum>u\<leftarrow>score_row g st (ds ! n). exp (u - Max (set (score_row g st (ds ! n))))))
          (score_row g st (ds ! n)) \<and>
      sum_list (map snd (all_scores q)) = 1 \<and>
      evaluate g batch_size st = Inr r \<and>
      raw_scores r ! n = score_row g st (ds ! n)"
proof -
  have ne: "ds \<noteq> []" using assms(5) by auto
  have wf: "well_formed D g st"
    using prepare_dataset_wf[OF assms(1) ne assms(2,3)] .
  note f = prepare_dataset_fields[OF assms(1)]
  let ?s = "score_row g st (ds ! n)"
  have n: "n < length (dataset st)" using assms(5) f(1) by simp
  from infer_sample_wf[OF wf n] obtain p where p: "softmax ?s = Inr p"
    and q: "infer_sample g st (int n) =
      Inr \<lparr>index = int n, true_label = sample_label (ds ! n),
           predicted_label = predicted g st (ds ! n),
           confidence = p ! argmax_index ?s, all_scores = zip (labels st) p\<rparr>"
    by (auto simp: f(1))
  have sne: "?s \<noteq> []" using wf by (auto simp: well_formed_def score_row_def)
  have pe: "p = map (\<lambda>v. exp (v - Max (set ?s)) / (\<Sum>u\<leftarrow>?s. exp (u - Max (set ?s)))) ?s"
    using softmax_expand[OF sne] p by simp
  have len: "length p = length (labels st)"
    using softmax_nth(1)[OF sne p] wf by (simp add: well_formed_def)
  have one: "sum_list p = 1" using softmax_sum[OF sne] p by auto
  from evaluate_prepared[OF assms(1) ne assms(2,3,4)]
  obtain r where r: "evaluate g batch_size st = Inr r" "raw_scores r = map (score_row g st) ds"
    by blast
  have "map fst (zip (labels st) p) = labels st" "map snd (zip (labels st) p) = p"
    using len by simp_all
  with q pe one r assms(5) show ?thesis by simp
qed

theorem softmax_per_score_vector_witness:
  "\<exists>q r. infer_sample (\<lambda>x. x) cat_dog_state 1 = Inr q \<and>
     map fst (all_scores q) = [''cat'', ''dog''] \<and>
     sum_list (map snd (all_scores q)) = 1 \<and>
     evaluate (\<lambda>x. x) 32 cat_dog_state = Inr r \<and>
     raw_scores r ! 1 = [1/10, 9/10]"
proof -
  have h2: "\<forall>t. length (cat_dog_encoder t) = 2" by simp
  have h3: "\<forall>s\<in>set cat_dog_dataset. length ((\<lambda>x. x) (sample_image s)) = 2" by simp
  have h4: "0 < (32::int)" by simp
  have h5: "1 < length cat_dog_dataset" by simp
  from softmax_per_score_vector[OF cat_dog_prepared h2 h3 h4 h5]
  show ?thesis by (auto simp: score_row_def dot_def)
qed

subsection \<open>The single-image scenario\<close>

text \<open>
  C9. With vocabulary cat, dog, label embeddings [[1,0],[0,1]] and the image embedding
  [0.9, 0.1], the scores are [0.9, 0.1], softmax gives probabilities within 0.005 of
  0.69 and 0.31, and \<open>inference_on_samples\<close> reports the label cat with the first
  probability as its confidence.
\<close>

theorem cat_dog_scenario:
  "score_row (\<lambda>x. x) cat_dog_state (cat_dog_dataset ! 0) = [9/10, 1/10] \<and>
   (\<exists>p0 p1 q. softmax [9/10, 1/10] = Inr [p0, p1] \<and>
      \<bar>p0 - 69/100\<bar> < 5/1000 \<and> \<bar>p1 - 31/100\<bar> < 5/1000 \<and>
      infer_sample (\<lambda>x. x) cat_dog_state 0 = Inr q \<and>
      predicted_label q = ''cat'' \<and> confidence q = p0 \<and>
      all_scores q = [(''cat'', p0), (''dog'', p1)])"
proof -
  have sr: "score_row (\<lambda>x. x) cat_dog_state (cat_dog_dataset ! 0) = [9/10, 1/10]"
    by (simp add: score_row_def dot_def)
  from softmax_example obtain p0 p1 where p: "softmax [9/10, 1/10] = Inr [p0, p1]"
    "\<bar>p0 - 69/100\<bar> < 5/1000" "\<bar>p1 - 31/100\<bar> < 5/1000"
    by blast
  have "infer_sample (\<lambda>x. x) cat_dog_state 0 =
    Inr \<lparr>index = 0, true_label = ''cat'', predicted_label = ''cat'', confidence = p0,
         all_scores = [(''cat'', p0), (''dog'', p1)]\<rparr>"
    by (simp add: infer_sample_def dataset_get_def np_dot_T_def dot_def np_argmax_def p(1)
        list_get_def)
  with sr p show ?thesis by simp
qed

subsection \<open>Arg-max before and after softmax\<close>

text \<open>
  C10, as stated, fails: in double precision the scores 0 and 2^-57 both get the
  probability 1/2, because the exponential of -2^-57 rounds to 1 (as it does in
  single precision). The lowest index of the maximum of \<open>softmax s\<close> is then 0, while
  the lowest index of the maximum of \<open>s\<close> is 1.
\<close>

theorem softmax_rounding_tie_counterexample:
  "softmax_fl round_double [0, 1 / 2 ^ 57] = Inr [1/2, 1/2] \<and>
   np_argmax [1/2, 1/2] = Inr 0 \<and>
   np_argmax [0, 1 / 2 ^ 57] = Inr 1"
  using softmax_fl_tie by (simp add: np_argmax_def)

text \<open>
  C10, amended. On every score vector that is not empty, and under every rounding of
  the float operations that is monotone and keeps 0 (no rounding included), the index
  that \<open>np.argmax\<close> selects on the raw scores attains the maximum of the softmax
  probabilities, and the lowest index attaining that maximum is at most that index.
  \<open>evaluate\<close> and \<open>inference_on_samples\<close> both select the label by \<open>np.argmax\<close> of the
  raw scores, so they predict the same label for a sample, and the confidence that
  \<open>inference_on_samples\<close> reports is the largest of the probabilities it reports.
\<close>

theorem raw_argmax_attains_softmax_maximum:
  "((\<forall>a b. a \<le> b \<longrightarrow> rnd a \<le> rnd b) \<and> rnd 0 = 0 \<and> s \<noteq> [] \<longrightarrow>
     (\<exists>p k k'. softmax_fl rnd s = Inr p \<and> np_argmax s = Inr k \<and> k < length p \<and>
        p ! k = Max (set p) \<and> np_argmax p = Inr k' \<and> k' \<le> k))
   \<and> (prepare_dataset txt ds = Inr st \<and> (\<forall>t. length (txt t) = D) \<and>
        (\<forall>s\<in>set ds. length (g (sample_image s)) = D) \<and> 0 < batch_size \<and> n < length ds \<longrightarrow>
     (\<exists>r q k. evaluate g batch_size st = Inr r \<and>
        inference_on_samples g st [int n] = Inr [q] \<and>
        np_argmax (score_row g st (ds ! n)) = Inr k \<and> k < length (labels st) \<and>
        predictions r ! n = labels st ! k \<and> predicted_label q = labels st ! k \<and>
        confidence q = Max (set (map snd (all_scores q)))))"
proof (intro conjI impI)
  assume h: "(\<forall>a b. a \<le> b \<longrightarrow> rnd a \<le> rnd b) \<and> rnd 0 = 0 \<and> s \<noteq> []"
  then have mono: "\<forall>a b. a \<le> b \<longrightarrow> rnd a \<le> rnd b" and zero: "rnd 0 = 0" and ne: "s \<noteq> []"
    by auto
  from softmax_fl_argmax[OF mono zero ne] obtain p where p: "softmax_fl rnd s = Inr p"
    "length p = length s" "p ! argmax_index s = Max (set p)" "argmax_index p \<le> argmax_index s"
    by blast
  have pne: "p \<noteq> []" using p(2) ne by auto
  show "\<exists>p k k'. softmax_fl rnd s = Inr p \<and> np_argmax s = Inr k \<and> k < length p \<and>
        p ! k = Max (set p) \<and> np_argmax p = Inr k' \<and> k' \<le> k"
    using p np_argmax_index[OF ne] np_argmax_index[OF pne] argmax_index_props(1)[OF ne]
    by auto
next
  assume h: "prepare_dataset txt ds = Inr st \<and> (\<forall>t. length (txt t) = D) \<and>
        (\<forall>s\<in>set ds. length (g (sample_image s)) = D) \<and> 0 < batch_size \<and> n < length ds"
  then have ne: "ds \<noteq> []" and prep: "prepare_dataset txt ds = Inr st"
    and dt: "\<forall>t. length (txt t) = D" and dg: "\<forall>s\<in>set ds. length (g (sample_image s)) = D"
    and bs: "0 < batch_size"
    by auto
  have wf: "well_formed D g st" using prepare_dataset_wf[OF prep ne dt dg] .
  have ds: "dataset st = ds" using prepare_dataset_fields(1)[OF prep] .
  let ?s = "score_row g st (ds ! n)"
  have n: "n < length (dataset st)" using h ds by simp
  from infer_sample_wf[OF wf n] obtain p where p: "softmax ?s = Inr p"
    and q: "infer_sample g st (int n) =
      Inr \<lparr>index = int n, true_label = sample_label (ds ! n),
           predicted_label = predicted g st (ds ! n),
           confidence = p ! argmax_index ?s, all_scores = zip (labels st) p\<rparr>"
    by (auto simp: ds)
  have sne: "?s \<noteq> []" using wf by (auto simp: well_formed_def score_row_def)
  have len: "length p = length (labels st)"
    using softmax_nth(1)[OF sne p] wf by (simp add: well_formed_def)
  have snd: "map snd (zip (labels st) p) = p" using len by simp
  then have snd': "snd ` set (zip (labels st) p) = set p" by (metis list.set_map)
  have id: "\<forall>a b. a \<le> b \<longrightarrow> (\<lambda>x::real. x) a \<le> (\<lambda>x. x) b" "(\<lambda>x::real. x) 0 = 0" by simp_all
  from softmax_fl_argmax[OF id sne] p
  have mx: "p ! argmax_index ?s = Max (set p)" by (simp add: softmax_fl_exact)
  from evaluate_prepared[OF prep ne dt dg bs]
  obtain r where r: "evaluate g batch_size st = Inr r" "predictions r = map (predicted g st) ds"
    by blast
  show "\<exists>r q k. evaluate g batch_size st = Inr r \<and>
        inference_on_samples g st [int n] = Inr [q] \<and>
        np_argmax (score_row g st (ds ! n)) = Inr k \<and> k < length (labels st) \<and>
        predictions r ! n = labels st ! k \<and> predicted_label q = labels st ! k \<and>
        confidence q = Max (set (map snd (all_scores q)))"
    using r q h snd' mx np_argmax_index[OF sne] predicted_in_labels(1)[OF wf, of "ds ! n"]
    by (simp add: inference_on_samples_def predicted_def)
qed

theorem raw_argmax_attains_softmax_maximum_witness:
  "(\<exists>p k k'. softmax_fl round_double [0, 1 / 2 ^ 57] = Inr p \<and>
      np_argmax [0, 1 / 2 ^ 57] = Inr k \<and> k < length p \<and> p ! k = Max (set p) \<and>
      np_argmax p = Inr k' \<and> k' \<le> k)
   \<and> (\<exists>r q. evaluate (\<lambda>x. x) 32 cat_dog_state = Inr r \<and>
        inference_on_samples (\<lambda>x. x) cat_dog_state [1] = Inr [q] \<and>
        np_argmax (score_row (\<lambda>x. x) cat_dog_state (cat_dog_dataset ! 1)) = Inr 1 \<and>
        predictions r ! 1 = ''dog'' \<and> predicted_label q = ''dog'' \<and>
        confidence q = Max (set (map snd (all_scores q))))"
proof -
  note t = raw_argmax_attains_softmax_maximum[of round_double "[0, 1 / 2 ^ 57]" cat_dog_encoder
      cat_dog_dataset cat_dog_state 2 "\<lambda>x. x" 32 1]
  have h1: "(\<forall>a b. a \<le> b \<longrightarrow> round_double a \<le> round_double b) \<and> round_double 0 = 0 \<and>
      [0, 1 / 2 ^ 57] \<noteq> ([]::vec)"
    using round_double_mono round_double_zero by simp
  from t h1 have a: "\<exists>p k k'. softmax_fl round_double [0, 1 / 2 ^ 57] = Inr p \<and>
      np_argmax [0, 1 / 2 ^ 57] = Inr k \<and> k < length p \<and> p ! k = Max (set p) \<and>
      np_argmax p = Inr k' \<and> k' \<le> k"
    by blast
  have h2: "prepare_dataset cat_dog_encoder cat_dog_dataset = Inr cat_dog_state \<and>
      (\<forall>t. length (cat_dog_encoder t) = 2) \<and>
      (\<forall>s\<in>set cat_dog_dataset. length ((\<lambda>x. x) (sample_image s)) = 2) \<and> 0 < (32::int) \<and>
      1 < length cat_dog_dataset"
    using cat_dog_prepared by simp
  from t h2 obtain r q k where b: "evaluate (\<lambda>x. x) 32 cat_dog_state = Inr r"
    "inference_on_samples (\<lambda>x. x) cat_dog_state [1] = Inr [q]"
    "np_argmax (score_row (\<lambda>x. x) cat_dog_state (cat_dog_dataset ! 1)) = Inr k"
    "k < length (labels cat_dog_state)"
    "predictions r ! 1 = labels cat_dog_state ! k" "predicted_label q = labels cat_dog_state ! k"
    "confidence q = Max (set (map snd (all_scores q)))"
    by auto
  from b(3) have "k = 1" by (simp add: score_row_def dot_def np_argmax_def)
  with b have "evaluate (\<lambda>x. x) 32 cat_dog_state = Inr r \<and>
        inference_on_samples (\<lambda>x. x) cat_dog_state [1] = Inr [q] \<and>
        np_argmax (score_row (\<lambda>x. x) cat_dog_state (cat_dog_dataset ! 1)) = Inr 1 \<and>
        predictions r ! 1 = ''dog'' \<and> predicted_label q = ''dog'' \<and>
        confidence q = Max (set (map snd (all_scores q)))"
    by simp
  with a show ?thesis by blast
qed

subsection \<open>Normalisation of the label embeddings\<close>

text \<open>
  C2. Each entry of a raw label embedding is divided by the Euclidean norm of its
  column, taken over the embeddings of all labels; this is not the per-row unit
  normalisation, as the embeddings [3,0] and [4,1] show: the rows become [3/5, 0] and
  [4/5, 1], where per-row normalisation gives [1, 0] for the first.
\<close>

theorem label_embeddings_divided_by_column_norm:
  "(prepare_dataset txt ds = Inr st \<and> i < length (labels st) \<and>
      j < length (txt (clip_label (labels st ! i))) \<longrightarrow>
     label_embeddings st ! i ! j =
       txt (clip_label (labels st ! i)) ! j / sqrt (\<Sum>l\<leftarrow>labels st. (txt (clip_label l) ! j)\<^sup>2))
   \<and> prepare_dataset three_four_encoder cat_dog_dataset =
       Inr \<lparr>dataset = cat_dog_dataset, labels = [''cat'', ''dog''],
            label_embeddings = [[3/5, 0], [4/5, 1]]\<rparr>
   \<and> l2_normalize_rows [[3, 0], [4, 1]] ! 0 = [1, 0]"
proof (intro conjI impI)
  assume h: "prepare_dataset txt ds = Inr st \<and> i < length (labels st) \<and>
      j < length (txt (clip_label (labels st ! i)))"
  then have prep: "prepare_dataset txt ds = Inr st" and i: "i < length (labels st)"
    and j: "j < length (txt (clip_label (labels st ! i)))"
    by auto
  note f = prepare_dataset_fields[OF prep]
  let ?raw = "map (\<lambda>l. txt (clip_label l)) (labels st)"
  have ri: "?raw ! i = txt (clip_label (labels st ! i))" using i by simp
  have "labels st ! i \<in> set (labels st)" using i by simp
  then have "length (txt (clip_label (labels st ! i))) = ncols ?raw"
    using f(5) by (simp add: rectangular_def list_all_iff)
  then have jn: "j < ncols ?raw" using j by simp
  have nj: "norm_axis0 ?raw ! j = sqrt (\<Sum>l\<leftarrow>labels st. (txt (clip_label l) ! j)\<^sup>2)"
    using jn by (simp add: norm_axis0_def comp_def)
  have "divide_rows ?raw (norm_axis0 ?raw) ! i ! j = ?raw ! i ! j / norm_axis0 ?raw ! j"
    by (rule divide_rows_nth) (use i j jn in \<open>simp_all add: norm_axis0_def\<close>)
  then show "label_embeddings st ! i ! j =
       txt (clip_label (labels st ! i)) ! j / sqrt (\<Sum>l\<leftarrow>labels st. (txt (clip_label l) ! j)\<^sup>2)"
    unfolding nj ri f(3)[symmetric] .
next
  show "prepare_dataset three_four_encoder cat_dog_dataset =
       Inr \<lparr>dataset = cat_dog_dataset, labels = [''cat'', ''dog''],
            label_embeddings = [[3/5, 0], [4/5, 1]]\<rparr>"
    by (rule three_four_prepared)
next
  show "l2_normalize_rows [[3, 0], [4, 1]] ! 0 = [1, 0]"
    by (simp add: l2_normalize_rows_def)
qed

theorem label_embeddings_divided_by_column_norm_witness:
  "label_embeddings \<lparr>dataset = cat_dog_dataset, labels = [''cat'', ''dog''],
          label_embeddings = [[3/5, 0], [4/5, 1]]\<rparr> ! 1 ! 0 = 4 / sqrt (3\<^sup>2 + 4\<^sup>2)"
proof -
  let ?st = "\<lparr>dataset = cat_dog_dataset, labels = [''cat'', ''dog''],
          label_embeddings = [[3/5, 0], [4/5, 1]]\<rparr>"
  have h: "prepare_dataset three_four_encoder cat_dog_dataset = Inr ?st \<and> 1 < length (labels ?st) \<and>
      0 < length (three_four_encoder (clip_label (labels ?st ! 1)))"
    using three_four_prepared by simp
  from label_embeddings_divided_by_column_norm[of three_four_encoder cat_dog_dataset ?st 1 0] h
  have "label_embeddings ?st ! 1 ! 0 =
       three_four_encoder (clip_label (labels ?st ! 1)) ! 0
         / sqrt (\<Sum>l\<leftarrow>labels ?st. (three_four_encoder (clip_label l) ! 0)\<^sup>2)"
    by blast
  then show ?thesis by (simp add: clip_label_def)
qed

subsection \<open>Vocabulary order and embedding rows\<close>

text \<open>
  C6. Row i of the label embedding matrix is the embedding of the i-th vocabulary
  entry, divided by the column norms; \<open>evaluate\<close> and \<open>inference_on_samples\<close> only read
  the vocabulary and the matrix, and the label either predicts for a sample is the
  vocabulary entry at an index whose embedding row has the highest dot product with
  the image embedding.
\<close>

theorem vocabulary_rows_aligned:
  assumes "prepare_dataset txt ds = Inr st"
    and "\<forall>t. length (txt t) = D"
    and "\<forall>s\<in>set ds. length (g (sample_image s)) = D"
    and "0 < batch_size" and "n < length ds"
  shows "length (label_embeddings st) = length (labels st) \<and>
    (\<forall>i<length (labels st).
       label_embeddings st ! i =
         map (\<lambda>(a, b). a / b)
           (zip (txt (clip_label (labels st ! i)))
              (norm_axis0 (map (\<lambda>l. txt (clip_label l)) (labels st))))) \<and>
    (\<exists>r q k. evaluate g batch_size st = Inr r \<and> infer_sample g st (int n) = Inr q \<and>
       k < length (labels st) \<and>
       predictions r ! n = labels st ! k \<and> predicted_label q = labels st ! k \<and>
       (\<forall>j<length (labels st).
          dot (g (sample_image (ds ! n))) (label_embeddings st ! j)
            \<le> dot (g (sample_image (ds ! n))) (label_embeddings st ! k)))"
proof (intro conjI)
  have ne: "ds \<noteq> []" using assms(5) by auto
  have wf: "well_formed D g st" using prepare_dataset_wf[OF assms(1) ne assms(2,3)] .
  note f = prepare_dataset_fields[OF assms(1)]
  show len: "length (label_embeddings st) = length (labels st)"
    using wf by (simp add: well_formed_def)
  show "\<forall>i<length (labels st).
       label_embeddings st ! i =
         map (\<lambda>(a, b). a / b)
           (zip (txt (clip_label (labels st ! i)))
              (norm_axis0 (map (\<lambda>l. txt (clip_label l)) (labels st))))"
    by (subst f(3)) (simp add: divide_rows_def)
  let ?s = "score_row g st (ds ! n)"
  let ?k = "argmax_index ?s"
  have n: "n < length (dataset st)" using assms(5) f(1) by simp
  have sne: "?s \<noteq> []" using wf by (auto simp: well_formed_def score_row_def)
  note a = argmax_index_props[OF sne]
  have k: "?k < length (labels st)" using predicted_in_labels(1)[OF wf] .
  from infer_sample_wf[OF wf n] obtain q where q: "infer_sample g st (int n) = Inr q"
    "predicted_label q = predicted g st (ds ! n)"
    by (auto simp: f(1))
  from evaluate_prepared[OF assms(1) ne assms(2,3,4)]
  obtain r where r: "evaluate g batch_size st = Inr r" "predictions r = map (predicted g st) ds"
    by blast
  have best: "\<forall>j<length (labels st).
          dot (g (sample_image (ds ! n))) (label_embeddings st ! j)
            \<le> dot (g (sample_image (ds ! n))) (label_embeddings st ! ?k)"
  proof (intro allI impI)
    fix j assume j: "j < length (labels st)"
    then have "?s ! j \<le> ?s ! ?k" using a(2) len by simp
    then show "dot (g (sample_image (ds ! n))) (label_embeddings st ! j)
            \<le> dot (g (sample_image (ds ! n))) (label_embeddings st ! ?k)"
      using j k len by (simp add: score_row_def)
  qed
  show "\<exists>r q k. evaluate g batch_size st = Inr r \<and> infer_sample g st (int n) = Inr q \<and>
       k < length (labels st) \<and>
       predictions r ! n = labels st ! k \<and> predicted_label q = labels st ! k \<and>
       (\<forall>j<length (labels st).
          dot (g (sample_image (ds ! n))) (label_embeddings st ! j)
            \<le> dot (g (sample_image (ds ! n))) (label_embeddings st ! k))"
    using r q k best assms(5) by (intro exI[of _ r] exI[of _ q] exI[of _ ?k]) (simp add: predicted_def)
qed

theorem vocabulary_rows_aligned_witness:
  "label_embeddings cat_dog_state ! 1 =
     map (\<lambda>(a, b). a / b) (zip (cat_dog_encoder ''a photo of a dog'')
        (norm_axis0 [cat_dog_encoder ''a photo of a cat'', cat_dog_encoder ''a photo of a dog''])) \<and>
   (\<exists>r q. evaluate (\<lambda>x. x) 1 cat_dog_state = Inr r \<and> infer_sample (\<lambda>x. x) cat_dog_state 0 = Inr q \<and>
      predictions r ! 0 = ''cat'' \<and> predicted_label q = ''cat'')"
proof -
  have h2: "\<forall>t. length (cat_dog_encoder t) = 2" by simp
  have h3: "\<forall>s\<in>set cat_dog_dataset. length ((\<lambda>x. x) (sample_image s)) = 2" by simp
  have h4: "0 < (1::int)" by simp
  have h5: "0 < length cat_dog_dataset" by simp
  note t = vocabulary_rows_aligned[OF cat_dog_prepared h2 h3 h4 h5]
  from t have "\<forall>i<length (labels cat_dog_state). label_embeddings cat_dog_state ! i =
     map (\<lambda>(a, b). a / b) (zip (cat_dog_encoder (clip_label (labels cat_dog_state ! i)))
        (norm_axis0 (map (\<lambda>l. cat_dog_encoder (clip_label l)) (labels cat_dog_state))))"
    by blast
  from this[rule_format, of 1] have a: "label_embeddings cat_dog_state ! 1 =
     map (\<lambda>(a, b). a / b) (zip (cat_dog_encoder ''a photo of a dog'')
        (norm_axis0 [cat_dog_encoder ''a photo of a cat'', cat_dog_encoder ''a photo of a dog'']))"
    by (simp add: clip_label_def)
  from t obtain r q k where b: "evaluate (\<lambda>x. x) 1 cat_dog_state = Inr r"
    "infer_sample (\<lambda>x. x) cat_dog_state (int 0) = Inr q" "k < length (labels cat_dog_state)"
    "predictions r ! 0 = labels cat_dog_state ! k" "predicted_label q = labels cat_dog_state ! k"
    "\<forall>j<length (labels cat_dog_state).
          dot (sample_image (cat_dog_dataset ! 0)) (label_embeddings cat_dog_state ! j)
            \<le> dot (sample_image (cat_dog_dataset ! 0)) (label_embeddings cat_dog_state ! k)"
    by auto
  have "k = 0"
  proof (rule ccontr)
    assume "k \<noteq> 0"
    with b(3) have "k = 1" by simp
    with b(6) show False by (auto simp: dot_def)
  qed
  with b have "evaluate (\<lambda>x. x) 1 cat_dog_state = Inr r \<and>
      infer_sample (\<lambda>x. x) cat_dog_state 0 = Inr q \<and>
      predictions r ! 0 = ''cat'' \<and> predicted_label q = ''cat''"
    by simp
  with a show ?thesis by blast
qed

subsection \<open>Accuracy and the weighted scores\<close>

text \<open>
  C7. The accuracy is the number of positions at which prediction and true label
  agree, divided by the number of samples, on every pair of sequences of one length
  that is not empty, and so in every result of \<open>evaluate\<close>. For true labels cat, dog,
  cat, dog and predictions cat, dog, dog, dog the accuracy is 3/4, the per-class
  scores are (1, 1/2, 2/3) with support 2 for cat and (2/3, 1, 4/5) with support 2 for
  dog, and the weighted precision, recall and F1 are their support-weighted means.
\<close>

theorem accuracy_fraction_of_matches:
  "(length yp = length yt \<and> yt \<noteq> [] \<longrightarrow>
      accuracy_of yp yt = Inr (real (card {i. i < length yt \<and> yp ! i = yt ! i}) / real (length yt)))
   \<and> (evaluate g batch_size st = Inr r \<longrightarrow>
      length (predictions r) = length (true_labels r) \<and> true_labels r \<noteq> [] \<and>
      accuracy (result_metrics r) =
        real (card {i. i < length (true_labels r) \<and> predictions r ! i = true_labels r ! i})
          / real (length (true_labels r)))
   \<and> accuracy_of [''cat'', ''dog'', ''dog'', ''dog''] [''cat'', ''dog'', ''cat'', ''dog''] = Inr (3/4)
   \<and> map (class_scores [''cat'', ''dog'', ''cat'', ''dog''] [''cat'', ''dog'', ''dog'', ''dog''])
        (unique_labels [''cat'', ''dog'', ''cat'', ''dog''] [''cat'', ''dog'', ''dog'', ''dog''])
      = [\<lparr>row_precision = 1, row_recall = 1/2, row_f1 = 2/3, row_support = 2\<rparr>,
         \<lparr>row_precision = 2/3, row_recall = 1, row_f1 = 4/5, row_support = 2\<rparr>]
   \<and> precision_recall_fscore_support
        [''cat'', ''dog'', ''cat'', ''dog''] [''cat'', ''dog'', ''dog'', ''dog'']
      = ((2 * 1 + 2 * (2/3)) / 4, (2 * (1/2) + 2 * 1) / 4, (2 * (2/3) + 2 * (4/5)) / 4)"
proof (intro conjI impI)
  assume "length yp = length yt \<and> yt \<noteq> []"
  then show "accuracy_of yp yt =
      Inr (real (card {i. i < length yt \<and> yp ! i = yt ! i}) / real (length yt))"
    using matches_card[of yp yt] by (simp add: accuracy_of_def)
next
  assume ev: "evaluate g batch_size st = Inr r"
  note a = accuracy_of_Inr[OF evaluate_Inr_metrics(1)[OF ev]]
  show "length (predictions r) = length (true_labels r)" by (rule a(1))
  show "true_labels r \<noteq> []" by (rule a(2))
  show "accuracy (result_metrics r) =
        real (card {i. i < length (true_labels r) \<and> predictions r ! i = true_labels r ! i})
          / real (length (true_labels r))"
    by (rule a(3))
next
  show "accuracy_of [''cat'', ''dog'', ''dog'', ''dog''] [''cat'', ''dog'', ''cat'', ''dog'']
      = Inr (3/4)"
    by (simp add: accuracy_of_def)
next
  show "map (class_scores [''cat'', ''dog'', ''cat'', ''dog''] [''cat'', ''dog'', ''dog'', ''dog''])
        (unique_labels [''cat'', ''dog'', ''cat'', ''dog''] [''cat'', ''dog'', ''dog'', ''dog''])
      = [\<lparr>row_precision = 1, row_recall = 1/2, row_f1 = 2/3, row_support = 2\<rparr>,
         \<lparr>row_precision = 2/3, row_recall = 1, row_f1 = 4/5, row_support = 2\<rparr>]"
    by (simp add: cat_dog_batch_labels class_scores_def tp_sum_def pred_sum_def true_sum_def
        prf_divide_def)
next
  show "precision_recall_fscore_support
        [''cat'', ''dog'', ''cat'', ''dog''] [''cat'', ''dog'', ''dog'', ''dog'']
      = ((2 * 1 + 2 * (2/3)) / 4, (2 * (1/2) + 2 * 1) / 4, (2 * (2/3) + 2 * (4/5)) / 4)"
    by (simp add: precision_recall_fscore_support_def cat_dog_batch_labels class_scores_def
        tp_sum_def pred_sum_def true_sum_def prf_divide_def weighted_average_def)
qed

theorem accuracy_fraction_of_matches_witness:
  "accuracy_of [''cat'', ''cat'', ''dog''] [''cat'', ''dog'', ''dog''] = Inr (2/3) \<and>
   card {i. i < 3 \<and> [''cat'', ''cat'', ''dog''] ! i = [''cat'', ''dog'', ''dog''] ! i} = 2 \<and>
   (\<exists>r. evaluate (\<lambda>x. x) 32 cat_dog_state = Inr r \<and>
      accuracy (result_metrics r) =
        real (card {i. i < length (true_labels r) \<and> predictions r ! i = true_labels r ! i})
          / real (length (true_labels r)))"
proof -
  have h: "length [''cat'', ''cat'', ''dog''] = length [''cat'', ''dog'', ''dog''] \<and>
      [''cat'', ''dog'', ''dog''] \<noteq> []"
    by simp
  have acc: "accuracy_of [''cat'', ''cat'', ''dog''] [''cat'', ''dog'', ''dog''] = Inr (2/3)"
    by (simp add: accuracy_of_def)
  from accuracy_fraction_of_matches[of "[''cat'', ''cat'', ''dog'']" "[''cat'', ''dog'', ''dog'']"] h
  have "accuracy_of [''cat'', ''cat'', ''dog''] [''cat'', ''dog'', ''dog''] =
      Inr (real (card {i. i < length [''cat'', ''dog'', ''dog''] \<and>
        [''cat'', ''cat'', ''dog''] ! i = [''cat'', ''dog'', ''dog''] ! i})
        / real (length [''cat'', ''dog'', ''dog'']))"
    by blast
  with acc have c: "card {i. i < 3 \<and> [''cat'', ''cat'', ''dog''] ! i = [''cat'', ''dog'', ''dog''] ! i} = 2"
    by (simp add: numeral_3_eq_3)
  have h2: "\<forall>t. length (cat_dog_encoder t) = 2" by simp
  have h3: "\<forall>s\<in>set cat_dog_dataset. length ((\<lambda>x. x) (sample_image s)) = 2" by simp
  from evaluate_prepared[OF cat_dog_prepared _ h2 h3, of 32]
  obtain r where r: "evaluate (\<lambda>x. x) 32 cat_dog_state = Inr r" by auto
  from accuracy_fraction_of_matches[of _ _ "\<lambda>x. x" 32 cat_dog_state r] r
  have "accuracy (result_metrics r) =
        real (card {i. i < length (true_labels r) \<and> predictions r ! i = true_labels r ! i})
          / real (length (true_labels r))"
    by blast
  with acc c r show ?thesis by blast
qed

text \<open>
  C8. When every predicted label equals the true label on a dataset that is not empty,
  the accuracy and the weighted precision, recall and F1 are all 1, for the metric
  functions on any such sequence and so for every result of \<open>evaluate\<close> whose
  predictions are its true labels.
\<close>

theorem all_correct_gives_ones:
  "(y \<noteq> [] \<longrightarrow> accuracy_of y y = Inr 1 \<and> precision_recall_fscore_support y y = (1, 1, 1))
   \<and> (evaluate g batch_size st = Inr r \<and> predictions r = true_labels r \<longrightarrow>
        accuracy (result_metrics r) = 1 \<and> precision (result_metrics r) = 1 \<and>
        recall (result_metrics r) = 1 \<and> f1_score (result_metrics r) = 1)"
proof (intro conjI impI)
  assume ne: "y \<noteq> []"
  have "filter (\<lambda>(p, t). p = t) (zip y y) = zip y y"
    by (auto simp: filter_id_conv set_zip)
  then show "accuracy_of y y = Inr 1" using ne by (simp add: accuracy_of_def)
  show "precision_recall_fscore_support y y = (1, 1, 1)" using ne by (rule prfs_same)
next
  assume h: "evaluate g batch_size st = Inr r \<and> predictions r = true_labels r"
  then have ev: "evaluate g batch_size st = Inr r" and same: "predictions r = true_labels r"
    by auto
  note m = evaluate_Inr_metrics[OF ev]
  note a = accuracy_of_Inr[OF m(1)]
  have "card {i. i < length (true_labels r) \<and> predictions r ! i = true_labels r ! i}
      = length (true_labels r)"
    by (simp add: same)
  with a(2,3) show "accuracy (result_metrics r) = 1" by simp
  from m(2) prfs_same[OF a(2)]
  show "precision (result_metrics r) = 1" "recall (result_metrics r) = 1"
    "f1_score (result_metrics r) = 1"
    by (simp_all add: same)
qed

theorem all_correct_gives_ones_witness:
  "accuracy_of [''dog'', ''cat'', ''dog''] [''dog'', ''cat'', ''dog''] = Inr 1 \<and>
   precision_recall_fscore_support [''dog'', ''cat'', ''dog''] [''dog'', ''cat'', ''dog''] = (1, 1, 1) \<and>
   (\<exists>r. evaluate (\<lambda>x. x) 32 cat_dog_state = Inr r \<and> predictions r = [''cat'', ''dog''] \<and>
      true_labels r = [''cat'', ''dog''] \<and>
      result_metrics r = \<lparr>accuracy = 1, precision = 1, recall = 1, f1_score = 1\<rparr>)"
proof -
  have ne: "[''dog'', ''cat'', ''dog''] \<noteq> []" by simp
  from all_correct_gives_ones[of "[''dog'', ''cat'', ''dog'']"] ne
  have a: "accuracy_of [''dog'', ''cat'', ''dog''] [''dog'', ''cat'', ''dog''] = Inr 1 \<and>
    precision_recall_fscore_support [''dog'', ''cat'', ''dog''] [''dog'', ''cat'', ''dog''] = (1, 1, 1)"
    by blast
  have h2: "\<forall>t. length (cat_dog_encoder t) = 2" by simp
  have h3: "\<forall>s\<in>set cat_dog_dataset. length ((\<lambda>x. x) (sample_image s)) = 2" by simp
  from evaluate_prepared[OF cat_dog_prepared _ h2 h3, of 32]
  obtain r where r: "evaluate (\<lambda>x. x) 32 cat_dog_state = Inr r"
    "predictions r = map (predicted (\<lambda>x. x) cat_dog_state) cat_dog_dataset"
    "true_labels r = map sample_label cat_dog_dataset"
    by auto
  have p: "predictions r = [''cat'', ''dog'']"
    by (simp add: r(2) predicted_def score_row_def dot_def argmax_index_def)
  have t: "true_labels r = [''cat'', ''dog'']" by (simp add: r(3))
  from all_correct_gives_ones[of _ "\<lambda>x. x" 32 cat_dog_state r] r(1) p t
  have "accuracy (result_metrics r) = 1 \<and> precision (result_metrics r) = 1 \<and>
        recall (result_metrics r) = 1 \<and> f1_score (result_metrics r) = 1"
    by simp
  then have "result_metrics r = \<lparr>accuracy = 1, precision = 1, recall = 1, f1_score = 1\<rparr>"
    by simp
  with a r(1) p t show ?thesis by blast
qed

subsection \<open>The per-class report\<close>

text \<open>
  C1, as stated, fails: a vocabulary label that is never predicted still has its true
  instances as support. On the dataset with one cat and one dog, both predicted cat,
  the entry of dog has support 1 (and weight 1/2 in the weighted averages), with
  precision, recall and F1 equal to 0.
\<close>

theorem unpredicted_label_support_counterexample:
  "prepare_dataset cat_dog_encoder one_sided_dataset = Inr one_sided_state \<and>
   evaluate (\<lambda>x. x) 32 one_sided_state =
     Inr \<lparr>result_metrics = \<lparr>accuracy = 1/2, precision = 1/4, recall = 1/2, f1_score = 1/3\<rparr>,
          detailed_report =
            \<lparr>report_rows =
               [(''cat'', \<lparr>row_precision = 1/2, row_recall = 1, row_f1 = 2/3, row_support = 1\<rparr>),
                (''dog'', \<lparr>row_precision = 0, row_recall = 0, row_f1 = 0, row_support = 1\<rparr>)],
             weighted_avg =
               \<lparr>row_precision = 1/4, row_recall = 1/2, row_f1 = 1/3, row_support = 2\<rparr>\<rparr>,
          predictions = [''cat'', ''cat''],
          true_labels = [''cat'', ''dog''],
          raw_scores = [[9/10, 1/10], [4/5, 1/5]]\<rparr>"
proof
  show "prepare_dataset cat_dog_encoder one_sided_dataset = Inr one_sided_state"
    by (rule one_sided_prepared)
  have bs: "0 < (32::int)" by simp
  have ne: "dataset one_sided_state \<noteq> []" by simp
  have lb: "labels one_sided_state = sort (remdups (map sample_label (dataset one_sided_state)))"
    by (simp add: sort_cat_dog)
  show "evaluate (\<lambda>x. x) 32 one_sided_state =
     Inr \<lparr>result_metrics = \<lparr>accuracy = 1/2, precision = 1/4, recall = 1/2, f1_score = 1/3\<rparr>,
          detailed_report =
            \<lparr>report_rows =
               [(''cat'', \<lparr>row_precision = 1/2, row_recall = 1, row_f1 = 2/3, row_support = 1\<rparr>),
                (''dog'', \<lparr>row_precision = 0, row_recall = 0, row_f1 = 0, row_support = 1\<rparr>)],
             weighted_avg =
               \<lparr>row_precision = 1/4, row_recall = 1/2, row_f1 = 1/3, row_support = 2\<rparr>\<rparr>,
          predictions = [''cat'', ''cat''],
          true_labels = [''cat'', ''dog''],
          raw_scores = [[9/10, 1/10], [4/5, 1/5]]\<rparr>"
    unfolding evaluate_wf[OF one_sided_wf bs ne lb]
    by (simp add: precision_recall_fscore_support_def one_sided_labels class_scores_def
        tp_sum_def pred_sum_def true_sum_def prf_divide_def weighted_average_def
        predicted_def argmax_index_def score_row_def dot_def)
qed

text \<open>
  C1, amended. In every evaluation run over a dataset that is not empty the
  per-class report has exactly one entry per vocabulary label, in vocabulary order.
  The vocabulary is the set of true labels, so the support of every entry is the
  positive number of true instances of its label, the supports add up to the number
  of samples, and the weighted averages weigh each label by its support. A label that
  is never predicted has precision, recall and F1 equal to 0.
\<close>

theorem report_row_per_vocabulary_label:
  assumes "prepare_dataset txt ds = Inr st"
    and "\<forall>t. length (txt t) = D"
    and "\<forall>s\<in>set ds. length (g (sample_image s)) = D"
    and "0 < batch_size" and "ds \<noteq> []"
  shows "\<exists>r. evaluate g batch_size st = Inr r \<and>
    map fst (report_rows (detailed_report r)) = labels st \<and>
    distinct (labels st) \<and> set (labels st) = set (true_labels r) \<and>
    (\<forall>(c, row)\<in>set (report_rows (detailed_report r)).
       row_support row = length (filter (\<lambda>t. t = c) (true_labels r)) \<and>
       0 < row_support row \<and>
       (c \<notin> set (predictions r) \<longrightarrow>
          row_precision row = 0 \<and> row_recall row = 0 \<and> row_f1 row = 0)) \<and>
    (\<Sum>(c, row)\<leftarrow>report_rows (detailed_report r). row_support row) = length ds \<and>
    precision (result_metrics r) =
      (\<Sum>(c, row)\<leftarrow>report_rows (detailed_report r). real (row_support row) * row_precision row)
        / real (length ds) \<and>
    recall (result_metrics r) =
      (\<Sum>(c, row)\<leftarrow>report_rows (detailed_report r). real (row_support row) * row_recall row)
        / real (length ds) \<and>
    f1_score (result_metrics r) =
      (\<Sum>(c, row)\<leftarrow>report_rows (detailed_report r). real (row_support row) * row_f1 row)
        / real (length ds)"
proof -
  note ne = assms(5)
  have wf: "well_formed D g st" using prepare_dataset_wf[OF assms(1) ne assms(2,3)] .
  note f = prepare_dataset_fields[OF assms(1)]
  from evaluate_prepared[OF assms(1) ne assms(2,3,4)]
  obtain r where r: "evaluate g batch_size st = Inr r"
    "predictions r = map (predicted g st) ds" "true_labels r = map sample_label ds"
    "report_rows (detailed_report r) =
      zip (labels st) (map (class_scores (true_labels r) (predictions r)) (labels st))"
    "precision_recall_fscore_support (true_labels r) (predictions r) =
      (precision (result_metrics r), recall (result_metrics r), f1_score (result_metrics r))"
    by blast
  let ?yt = "true_labels r" and ?yp = "predictions r"
  have lb: "labels st = sort (remdups ?yt)" by (simp add: f(2) r(3))
  have rows: "report_rows (detailed_report r) = map (\<lambda>c. (c, class_scores ?yt ?yp c)) (labels st)"
    by (simp only: r(4) zip_map_self)
  have c2: "distinct (labels st)" "set (labels st) = set ?yt" by (simp_all add: lb)
  have sub: "set ?yp \<subseteq> set ?yt"
    using predicted_in_labels(2)[OF wf] unfolding c2(2) by (auto simp: r(2))
  have ul: "unique_labels ?yt ?yp = sort (remdups ?yt)" using sub by (rule unique_labels_subset)
  have yne: "?yt \<noteq> []" using ne by (simp add: r(3))
  have len: "length ?yt = length ds" by (simp add: r(3))
  have c1: "map fst (report_rows (detailed_report r)) = labels st"
    by (simp add: rows comp_def)
  have c3: "\<forall>(c, row)\<in>set (report_rows (detailed_report r)).
       row_support row = length (filter (\<lambda>t. t = c) ?yt) \<and> 0 < row_support row \<and>
       (c \<notin> set ?yp \<longrightarrow> row_precision row = 0 \<and> row_recall row = 0 \<and> row_f1 row = 0)"
  proof (clarify, intro conjI impI)
    fix c row
    assume "(c, row) \<in> set (report_rows (detailed_report r))"
    then have c: "c \<in> set ?yt" and row: "row = class_scores ?yt ?yp c"
      by (auto simp: rows c2(2))
    show "row_support row = length (filter (\<lambda>t. t = c) ?yt)"
      by (simp add: row class_scores_def true_sum_def)
    show "0 < row_support row"
      using true_sum_pos[OF c] by (simp add: row class_scores_def)
    assume "c \<notin> set ?yp"
    then show "row_precision row = 0" "row_recall row = 0" "row_f1 row = 0"
      by (simp_all add: row class_scores_def tp_sum_unpredicted pred_sum_unpredicted prf_divide_def)
  qed
  have c4: "(\<Sum>(c, row)\<leftarrow>report_rows (detailed_report r). row_support row) = length ds"
  proof -
    have "(\<Sum>(c, row)\<leftarrow>report_rows (detailed_report r). row_support row)
        = sum_list (map (true_sum ?yt) (sort (remdups ?yt)))"
      by (simp add: rows lb comp_def class_scores_def)
    then show ?thesis by (simp only: sum_true_sum len)
  qed
  have w: "(\<Sum>(c, row)\<leftarrow>report_rows (detailed_report r). real (row_support row) * h row)
      = (\<Sum>c\<leftarrow>sort (remdups ?yt). real (row_support (class_scores ?yt ?yp c))
          * h (class_scores ?yt ?yp c))" for h :: "report_row \<Rightarrow> real"
    by (simp add: rows lb[symmetric] comp_def)
  note p = prfs_weighted_rows[OF ul yne, unfolded r(5) len]
  have c5: "precision (result_metrics r) =
      (\<Sum>(c, row)\<leftarrow>report_rows (detailed_report r). real (row_support row) * row_precision row)
        / real (length ds)"
    unfolding w using p by simp
  have c6: "recall (result_metrics r) =
      (\<Sum>(c, row)\<leftarrow>report_rows (detailed_report r). real (row_support row) * row_recall row)
        / real (length ds)"
    unfolding w using p by simp
  have c7: "f1_score (result_metrics r) =
      (\<Sum>(c, row)\<leftarrow>report_rows (detailed_report r). real (row_support row) * row_f1 row)
        / real (length ds)"
    unfolding w using p by simp
  from r(1) c1 c2 c3 c4 c5 c6 c7 show ?thesis by blast
qed

theorem report_row_per_vocabulary_label_witness:
  "\<exists>r. evaluate (\<lambda>x. x) 32 one_sided_state = Inr r \<and>
     map fst (report_rows (detailed_report r)) = [''cat'', ''dog''] \<and>
     (\<forall>(c, row)\<in>set (report_rows (detailed_report r)).
        row_support row = length (filter (\<lambda>t. t = c) (true_labels r)) \<and> 0 < row_support row) \<and>
     (\<Sum>(c, row)\<leftarrow>report_rows (detailed_report r). row_support row) = 2"
proof -
  have h2: "\<forall>t. length (cat_dog_encoder t) = 2" by simp
  have h3: "\<forall>s\<in>set one_sided_dataset. length ((\<lambda>x. x) (sample_image s)) = 2" by simp
  have h4: "0 < (32::int)" by simp
  have h5: "one_sided_dataset \<noteq> []" by simp
  from report_row_per_vocabulary_label[OF one_sided_prepared h2 h3 h4 h5]
  obtain r where r: "evaluate (\<lambda>x. x) 32 one_sided_state = Inr r"
    "map fst (report_rows (detailed_report r)) = labels one_sided_state"
    "\<forall>(c, row)\<in>set (report_rows (detailed_report r)).
       row_support row = length (filter (\<lambda>t. t = c) (true_labels r)) \<and>
       0 < row_support row \<and>
       (c \<notin> set (predictions r) \<longrightarrow>
          row_precision row = 0 \<and> row_recall row = 0 \<and> row_f1 row = 0)"
    "(\<Sum>(c, row)\<leftarrow>report_rows (detailed_report r). row_support row) = length one_sided_dataset"
    by blast
  from r(3) have "\<forall>(c, row)\<in>set (report_rows (detailed_report r)).
        row_support row = length (filter (\<lambda>t. t = c) (true_labels r)) \<and> 0 < row_support row"
    by blast
  with r(1,2,4) show ?thesis by (intro exI[of _ r]) simp
qed

end
